theory Spec2Isabelle
  imports Main "HOL-Library.Sublist"
begin

section \<open>Python strings\<close>

text \<open>
  A Python \<open>str\<close> is a sequence of Unicode code points, so a string is a list of
  natural numbers and \<open>length\<close> counts code points, as \<open>len\<close> does.  ASCII
  literals of the source are written with \<open>str\<close>.
\<close>

type_synonym pystr = "nat list"

definition str :: "string \<Rightarrow> pystr" where
  "str s = map of_char s"

text \<open>
  The Unicode tables of the Python runtime are not part of the repository.  Their ASCII
  part and the case mapping of the Cyrillic letters that \<open>CYRILLIC_SYMBOLS\<close> lists are
  written out below; for every other code point the upper-case mapping (a string, since
  one code point may map to several) and the word-character class of the regular
  expression engine are fields of this record.
\<close>

record unicode =
  toupper_full :: "nat \<Rightarrow> pystr"
  isalnum :: "nat \<Rightarrow> bool"

definition char_upper :: "unicode \<Rightarrow> nat \<Rightarrow> pystr" where
  "char_upper u c =
     (if 97 \<le> c \<and> c \<le> 122 then [c - 32]
      else if c < 128 then [c]
      else if 0x430 \<le> c \<and> c \<le> 0x44F then [c - 32]
      else if 0x450 \<le> c \<and> c \<le> 0x45F then [c - 80]
      else if c = 0x491 then [0x490]
      else toupper_full u c)"

text \<open>\<open>s.upper()\<close>: every code point is replaced by its upper-case mapping.\<close>

definition upper :: "unicode \<Rightarrow> pystr \<Rightarrow> pystr" where
  "upper u s = concat (map (char_upper u) s)"

text \<open>\<open>s.rfind(c)\<close> for a one-character \<open>c\<close>: the highest index holding \<open>c\<close>, or \<open>-1\<close>.\<close>

fun rfind :: "pystr \<Rightarrow> nat \<Rightarrow> int" where
  "rfind [] c = -1"
| "rfind (x # xs) c =
     (let r = rfind xs c in if r \<noteq> -1 then r + 1 else if x = c then 0 else -1)"

definition dot :: nat where "dot = 46"
definition slash :: nat where "slash = 47"
definition underscore :: nat where "underscore = 95"

section \<open>Extensions\<close>

text \<open>
  \<open>PurePath.suffix\<close> of the standard library, on a final path component \<open>name\<close>:
  \<^verbatim>\<open>i = name.rfind('.'); return name[i:] if 0 < i < len(name) - 1 else ''\<close>.
\<close>

definition suffix :: "pystr \<Rightarrow> pystr" where
  "suffix name =
     (let i = rfind name dot
      in if 0 < i \<and> i < int (length name) - 1 then drop (nat i) name else [])"

text \<open>\<open>MediaHandler.get_extension\<close>: \<open>Path(name).suffix[1:].upper()\<close>.\<close>

definition get_extension :: "unicode \<Rightarrow> pystr \<Rightarrow> pystr" where
  "get_extension u name = upper u (drop 1 (suffix name))"

text \<open>
  The twenty module-level lists.  \<open>REGISTER_EXTENSION\<close> maps an upper-case extension to
  one of them; \<open>ZIP\<close>, \<open>GZ\<close> and \<open>TAR\<close> share the one list \<open>ARCHIVES\<close>, and
  \<open>MY_OTHER\<close> is no value of the dictionary.
\<close>

datatype bucket =
    JPEG_IMAGES | JPG_IMAGES | PNG_IMAGES | SVG_IMAGES
  | MP3_AUDIO | OGG_AUDIO | WAV_AUDIO | AMR_AUDIO
  | AVI_VIDEO | MP4_VIDEO | MOV_VIDEO | MKV_VIDEO
  | DOC_DOCS | DOCX_DOCS | TXT_DOCS | PDF_DOCS | XLSX_DOCS | PPTX_DOCS
  | ARCHIVES | MY_OTHER

definition REGISTER_EXTENSION :: "pystr \<rightharpoonup> bucket" where
  "REGISTER_EXTENSION = map_of
     [(str ''JPEG'', JPEG_IMAGES), (str ''JPG'', JPG_IMAGES), (str ''PNG'', PNG_IMAGES),
      (str ''SVG'', SVG_IMAGES), (str ''MP3'', MP3_AUDIO), (str ''OGG'', OGG_AUDIO),
      (str ''WAV'', WAV_AUDIO), (str ''AMR'', AMR_AUDIO), (str ''AVI'', AVI_VIDEO),
      (str ''MP4'', MP4_VIDEO), (str ''MOV'', MOV_VIDEO), (str ''MKV'', MKV_VIDEO),
      (str ''DOC'', DOC_DOCS), (str ''DOCX'', DOCX_DOCS), (str ''TXT'', TXT_DOCS),
      (str ''PDF'', PDF_DOCS), (str ''XLSX'', XLSX_DOCS), (str ''PPTX'', PPTX_DOCS),
      (str ''ZIP'', ARCHIVES), (str ''GZ'', ARCHIVES), (str ''TAR'', ARCHIVES)]"

text \<open>
  The six batches that \<open>process_folder\<close> hands to its tasks, each the concatenation of
  some of the lists, give the category of a list.
\<close>

datatype category = Image | Audio | Video | Document | Archive | Other

fun category_of :: "bucket \<Rightarrow> category" where
  "category_of JPEG_IMAGES = Image"
| "category_of JPG_IMAGES = Image"
| "category_of PNG_IMAGES = Image"
| "category_of SVG_IMAGES = Image"
| "category_of MP3_AUDIO = Audio"
| "category_of OGG_AUDIO = Audio"
| "category_of WAV_AUDIO = Audio"
| "category_of AMR_AUDIO = Audio"
| "category_of AVI_VIDEO = Video"
| "category_of MP4_VIDEO = Video"
| "category_of MOV_VIDEO = Video"
| "category_of MKV_VIDEO = Video"
| "category_of DOC_DOCS = Document"
| "category_of DOCX_DOCS = Document"
| "category_of TXT_DOCS = Document"
| "category_of PDF_DOCS = Document"
| "category_of XLSX_DOCS = Document"
| "category_of PPTX_DOCS = Document"
| "category_of ARCHIVES = Archive"
| "category_of MY_OTHER = Other"

section \<open>Name normalisation\<close>

text \<open>
  \<open>os.path.splitext\<close> (\<open>genericpath._splitext\<close> with the POSIX separator and no
  alternative separator).  The loop skips the dots that lead the last component:
  \<^verbatim>\<open>
  while filenameIndex < dotIndex:
      if p[filenameIndex:filenameIndex+1] != extsep:
          return p[:dotIndex], p[dotIndex:]
      filenameIndex += 1
  return p, p[:0]\<close>
\<close>

function splitext_loop :: "pystr \<Rightarrow> nat \<Rightarrow> nat \<Rightarrow> pystr \<times> pystr" where
  "splitext_loop p filenameIndex dotIndex =
     (if filenameIndex < dotIndex
      then (if take 1 (drop filenameIndex p) \<noteq> [dot]
            then (take dotIndex p, drop dotIndex p)
            else splitext_loop p (filenameIndex + 1) dotIndex)
      else (p, []))"
  by pat_completeness auto
termination
  by (relation "measure (\<lambda>(p, i, d). d - i)") auto

declare splitext_loop.simps [simp del]

definition splitext :: "pystr \<Rightarrow> pystr \<times> pystr" where
  "splitext p =
     (let sepIndex = rfind p slash; dotIndex = rfind p dot
      in if dotIndex > sepIndex
         then splitext_loop p (nat (sepIndex + 1)) (nat dotIndex)
         else (p, []))"

definition CYRILLIC_SYMBOLS :: pystr where
  "CYRILLIC_SYMBOLS =
     [0x430, 0x431, 0x432, 0x433, 0x434, 0x435, 0x451, 0x436, 0x437, 0x438, 0x439,
      0x43A, 0x43B, 0x43C, 0x43D, 0x43E, 0x43F, 0x440, 0x441, 0x442, 0x443, 0x444,
      0x445, 0x446, 0x447, 0x448, 0x449, 0x44A, 0x44B, 0x44C, 0x44D, 0x44E, 0x44F,
      0x454, 0x456, 0x457, 0x491]"

definition TRANSLATION :: "pystr list" where
  "TRANSLATION = map str
     [''a'', ''b'', ''v'', ''g'', ''d'', ''e'', ''yo'', ''zh'', ''z'', ''i'', ''y'',
      ''k'', ''l'', ''m'', ''n'', ''o'', ''p'', ''r'', ''s'', ''t'', ''u'', ''f'',
      ''kh'', ''ts'', ''ch'', ''sh'', ''shch'', [CHR 0x27], ''y'', [CHR 0x27], ''e'',
      ''yu'', ''ya'', ''ye'', ''i'', ''yi'', ''g'']"

text \<open>
  The loop that fills \<open>TRANS\<close>:
  \<^verbatim>\<open>TRANS[ord(c)] = l; TRANS[ord(c.upper())] = l.upper()\<close>.
  On the letters of \<open>CYRILLIC_SYMBOLS\<close> and the ASCII strings of \<open>TRANSLATION\<close> the
  case mapping is the one written out in \<open>char_upper\<close>, whatever the record holds, and
  \<open>c.upper()\<close> is one code point, whose \<open>ord\<close> is its head.
\<close>

definition no_unicode :: unicode where
  "no_unicode = \<lparr>toupper_full = (\<lambda>c. [c]), isalnum = (\<lambda>c. False)\<rparr>"

definition TRANS_step :: "nat \<times> pystr \<Rightarrow> (nat \<rightharpoonup> pystr) \<Rightarrow> (nat \<rightharpoonup> pystr)" where
  "TRANS_step cl m =
     (let c = fst cl; l = snd cl;
          m1 = m(c \<mapsto> l)
      in m1(hd (upper no_unicode [c]) \<mapsto> upper no_unicode l))"

definition TRANS :: "nat \<rightharpoonup> pystr" where
  "TRANS = fold TRANS_step (zip CYRILLIC_SYMBOLS TRANSLATION) Map.empty"

text \<open>\<open>s.translate(table)\<close>: a code point that is a key is replaced by its string.\<close>

definition translate :: "(nat \<rightharpoonup> pystr) \<Rightarrow> pystr \<Rightarrow> pystr" where
  "translate table s =
     concat (map (\<lambda>c. case table c of Some l \<Rightarrow> l | None \<Rightarrow> [c]) s)"

text \<open>
  The class \<open>\w\<close> of a \<open>str\<close> pattern: alphanumeric code points and the underscore.
\<close>

definition is_word :: "unicode \<Rightarrow> nat \<Rightarrow> bool" where
  "is_word u c =
     (if c < 128
      then (48 \<le> c \<and> c \<le> 57) \<or> (65 \<le> c \<and> c \<le> 90) \<or> (97 \<le> c \<and> c \<le> 122) \<or> c = 95
      else isalnum u c)"

text \<open>\<open>re.sub(r"\W", "_", s)\<close>: each code point outside \<open>\w\<close> becomes an underscore.\<close>

definition re_sub_W :: "unicode \<Rightarrow> pystr \<Rightarrow> pystr" where
  "re_sub_W u s = map (\<lambda>c. if is_word u c then c else underscore) s"

text \<open>\<open>MediaHandler.normalize\<close>.\<close>

definition normalize :: "unicode \<Rightarrow> pystr \<Rightarrow> pystr" where
  "normalize u name =
     (let (filename, ext) = splitext name;
          filename = re_sub_W u (translate TRANS filename)
      in filename @ ext)"


section \<open>Scanning\<close>

text \<open>
  A \<open>Path\<close> is the list of its components.  A directory tree, as \<open>iterdir\<close> and
  \<open>is_dir\<close> show it to \<open>scan\<close>: the entries of a directory in the order in which
  \<open>iterdir\<close> yields them, each a name with a file (and its content) or a directory.
  Symbolic links are not modelled, so the tree is finite and \<open>scan\<close> returns.
\<close>

type_synonym path = "pystr list"
type_synonym content = "nat list"

datatype node = File content | Dir "(pystr \<times> node) list"

text \<open>
  The module-level accumulators: the twenty lists, \<open>FOLDERS\<close>, \<open>EXTENSIONS\<close> and
  \<open>UNKNOWN\<close>.  They are created when the module is imported and no function of the
  module empties them.
\<close>

record scan_state =
  buckets :: "bucket \<Rightarrow> path list"
  FOLDERS :: "path list"
  EXTENSIONS :: "pystr set"
  UNKNOWN :: "pystr set"

definition initial_state :: scan_state where
  "initial_state = \<lparr>buckets = (\<lambda>b. []), FOLDERS = [], EXTENSIONS = {}, UNKNOWN = {}\<rparr>"

definition append_to :: "bucket \<Rightarrow> path \<Rightarrow> scan_state \<Rightarrow> scan_state" where
  "append_to b p st = st\<lparr>buckets := (buckets st)(b := buckets st b @ [p])\<rparr>"

text \<open>The tuple of directory names that \<open>scan\<close> does not enter.\<close>

definition skipped_names :: "pystr list" where
  "skipped_names =
     map str [''archives'', ''video'', ''audio'', ''documents'', ''images'', ''MY_OTHER'']"

text \<open>The part of the loop body of \<open>scan\<close> that handles an entry which is no directory.\<close>

definition scan_file :: "unicode \<Rightarrow> path \<Rightarrow> pystr \<Rightarrow> scan_state \<Rightarrow> scan_state" where
  "scan_file u folder name st =
     (let extension = get_extension u name;
          full_name = folder @ [name]
      in if extension = [] then append_to MY_OTHER full_name st
         else (case REGISTER_EXTENSION extension of
                 Some b \<Rightarrow> (append_to b full_name st)\<lparr>EXTENSIONS := insert extension (EXTENSIONS st)\<rparr>
               | None \<Rightarrow> append_to MY_OTHER full_name (st\<lparr>UNKNOWN := insert extension (UNKNOWN st)\<rparr>)))"

text \<open>
  The loop body of \<open>scan\<close> for one entry; the recursive call \<open>self.scan(item)\<close> is the
  fold over the entries of the subdirectory.
\<close>

fun scan_item :: "unicode \<Rightarrow> path \<Rightarrow> pystr \<times> node \<Rightarrow> scan_state \<Rightarrow> scan_state" where
  "scan_item u folder (name, Dir items) st =
     (if name \<notin> set skipped_names
      then fold (scan_item u (folder @ [name])) items (st\<lparr>FOLDERS := FOLDERS st @ [folder @ [name]]\<rparr>)
      else st)"
| "scan_item u folder (name, File c) st = scan_file u folder name st"

text \<open>\<open>MediaHandler.scan\<close> on a directory \<open>folder\<close> with the entries \<open>items\<close>.\<close>

definition scan :: "unicode \<Rightarrow> path \<Rightarrow> (pystr \<times> node) list \<Rightarrow> scan_state \<Rightarrow> scan_state" where
  "scan u folder items st = fold (scan_item u folder) items st"

text \<open>The batches that \<open>process_folder\<close> builds from the lists when it submits its tasks.\<close>

definition images_batch :: "scan_state \<Rightarrow> path list" where
  "images_batch st =
     buckets st JPEG_IMAGES @ buckets st JPG_IMAGES @ buckets st PNG_IMAGES @ buckets st SVG_IMAGES"

definition audio_batch :: "scan_state \<Rightarrow> path list" where
  "audio_batch st =
     buckets st MP3_AUDIO @ buckets st OGG_AUDIO @ buckets st WAV_AUDIO @ buckets st AMR_AUDIO"

definition video_batch :: "scan_state \<Rightarrow> path list" where
  "video_batch st =
     buckets st AVI_VIDEO @ buckets st MP4_VIDEO @ buckets st MOV_VIDEO @ buckets st MKV_VIDEO"

definition documents_batch :: "scan_state \<Rightarrow> path list" where
  "documents_batch st =
     buckets st DOC_DOCS @ buckets st DOCX_DOCS @ buckets st TXT_DOCS @ buckets st PDF_DOCS
       @ buckets st XLSX_DOCS @ buckets st PPTX_DOCS"

section \<open>The file system\<close>

text \<open>
  The file system is a finite table from paths to entries; the empty path is the working
  directory, which exists.  Permissions and symbolic links are not modelled: an
  operation fails only for the reasons written out here.
\<close>

datatype entry = F content | D

type_synonym fs = "(path \<times> entry) list"

datatype error =
    FileExistsError | FileNotFoundError | NotADirectoryError | IsADirectoryError
  | DirectoryNotEmpty | ShutilError | ReadError | BadZipFile | PermissionError
  | OverflowError | TypeError

definition lookup :: "fs \<Rightarrow> path \<Rightarrow> entry option" where
  "lookup t p = map_of t p"

definition remove :: "fs \<Rightarrow> path \<Rightarrow> fs" where
  "remove t p = filter (\<lambda>qe. fst qe \<noteq> p) t"

definition store :: "fs \<Rightarrow> path \<Rightarrow> entry \<Rightarrow> fs" where
  "store t p e = (p, e) # remove t p"

definition is_dir :: "fs \<Rightarrow> path \<Rightarrow> bool" where
  "is_dir t p = (p = [] \<or> lookup t p = Some D)"

definition exists :: "fs \<Rightarrow> path \<Rightarrow> bool" where
  "exists t p = (p = [] \<or> lookup t p \<noteq> None)"

definition has_children :: "fs \<Rightarrow> path \<Rightarrow> bool" where
  "has_children t p = list_ex (\<lambda>qe. fst qe \<noteq> [] \<and> butlast (fst qe) = p) t"

text \<open>\<open>Path.name\<close> and \<open>Path.__truediv__\<close> with a name that holds no separator.\<close>

definition path_name :: "path \<Rightarrow> pystr" where
  "path_name p = (if p = [] then [] else last p)"

definition join :: "path \<Rightarrow> pystr \<Rightarrow> path" where
  "join p s = (if s = [] then p else p @ [s])"

text \<open>\<open>Path.mkdir(exist_ok=True)\<close>.\<close>

definition mkdir :: "fs \<Rightarrow> path \<Rightarrow> fs \<times> error option" where
  "mkdir t p =
     (if is_dir t p then (t, None)
      else if exists t p then (t, Some FileExistsError)
      else if is_dir t (butlast p) then (store t p D, None)
      else if exists t (butlast p) then (t, Some NotADirectoryError)
      else (t, Some FileNotFoundError))"

text \<open>
  \<open>Path.mkdir(exist_ok=True, parents=True)\<close>: when the parent is missing it is made
  first, with its own parents.
\<close>

function mkdir_parents :: "fs \<Rightarrow> path \<Rightarrow> fs \<times> error option" where
  "mkdir_parents t p =
     (if is_dir t p then (t, None)
      else if exists t p then (t, Some FileExistsError)
      else if is_dir t (butlast p) then (store t p D, None)
      else if exists t (butlast p) then (t, Some NotADirectoryError)
      else (case mkdir_parents t (butlast p) of
              (t', Some e) \<Rightarrow> (t', Some e)
            | (t', None) \<Rightarrow> mkdir t' p))"
  by pat_completeness auto
termination
  by (relation "measure (\<lambda>(t, p). length p)") (auto simp: is_dir_def)

declare mkdir_parents.simps [simp del]

text \<open>\<open>Path.unlink()\<close> and \<open>Path.rmdir()\<close>.\<close>

definition unlink :: "fs \<Rightarrow> path \<Rightarrow> fs \<times> error option" where
  "unlink t p =
     (case lookup t p of
        None \<Rightarrow> (t, Some FileNotFoundError)
      | Some D \<Rightarrow> (t, Some IsADirectoryError)
      | Some (F c) \<Rightarrow> (remove t p, None))"

definition rmdir :: "fs \<Rightarrow> path \<Rightarrow> fs \<times> error option" where
  "rmdir t p =
     (case lookup t p of
        None \<Rightarrow> (t, Some FileNotFoundError)
      | Some (F c) \<Rightarrow> (t, Some NotADirectoryError)
      | Some D \<Rightarrow> if has_children t p then (t, Some DirectoryNotEmpty) else (remove t p, None))"

text \<open>
  \<open>shutil.move(src, dst)\<close>.  A destination that is a directory receives the source
  under its own name, which must be free there; otherwise \<open>os.rename\<close> replaces a file
  at the destination.  A directory moves with everything below it.
\<close>

definition rename_tree :: "fs \<Rightarrow> path \<Rightarrow> path \<Rightarrow> fs" where
  "rename_tree t src dst =
     map (\<lambda>qe. if prefix src (fst qe) then (dst @ drop (length src) (fst qe), snd qe) else qe) t"

definition move :: "fs \<Rightarrow> path \<Rightarrow> path \<Rightarrow> fs \<times> error option" where
  "move t src dst =
     (let real_dst = (if is_dir t dst then join dst (path_name src) else dst)
      in if is_dir t dst \<and> src = dst \<and> lookup t src = Some D then (t, None)
         else if is_dir t dst \<and> exists t real_dst then (t, Some ShutilError)
         else (case lookup t src of
                 None \<Rightarrow> (t, Some FileNotFoundError)
               | Some (F c) \<Rightarrow>
                   if \<not> is_dir t (butlast real_dst) then (t, Some FileNotFoundError)
                   else if src = real_dst then (t, None)
                   else (store (remove t src) real_dst (F c), None)
               | Some D \<Rightarrow>
                   if exists t real_dst then (t, Some FileExistsError)
                   else if prefix src real_dst then (t, Some ShutilError)
                   else if \<not> is_dir t (butlast real_dst) then (t, Some FileNotFoundError)
                   else (rename_tree t src real_dst, None)))"

text \<open>
  \<open>shutil.unpack_archive\<close> belongs to the standard library and reads the bytes of the
  archive, so what it does is a parameter of the model: for a file system, the path of
  the archive and the directory to extract into, it either returns after writing
  entries, given with their paths below that directory, or raises an exception after
  writing some.
\<close>

datatype unpack_outcome =
    Unpacked "(path \<times> entry) list"
  | Raised error "(path \<times> entry) list"

type_synonym unpacker = "fs \<Rightarrow> path \<Rightarrow> path \<Rightarrow> unpack_outcome"

definition extract_members :: "fs \<Rightarrow> path \<Rightarrow> (path \<times> entry) list \<Rightarrow> fs" where
  "extract_members t dir members = fold (\<lambda>m t. store t (dir @ fst m) (snd m)) members t"

section \<open>Logging\<close>

text \<open>
  What \<open>CustomLogger.log\<close> has been given: the level, the text and, for a message built
  from an exception, the exception.
\<close>

datatype level = INFO | ERROR

type_synonym logger = "(level \<times> pystr \<times> error option) list"

section \<open>Processing\<close>

text \<open>The state that the methods of \<open>MediaHandler\<close> can change.\<close>

record world =
  files :: fs
  log :: logger

text \<open>\<open>s.replace(old, new)\<close>.\<close>

function replace :: "pystr \<Rightarrow> pystr \<Rightarrow> pystr \<Rightarrow> pystr" where
  "replace s old new =
     (if old = [] then new @ concat (map (\<lambda>c. c # new) s)
      else if s = [] then []
      else if prefix old s then new @ replace (drop (length old) s) old new
      else hd s # replace (tl s) old new)"
  by pat_completeness auto
termination
  by (relation "measure (\<lambda>(s, old, new). length s)") auto

declare replace.simps [simp del]

text \<open>
  \<open>MediaHandler.handle_media\<close>: whatever the body raises is caught and passed over, and
  nothing is given to the logger.
\<close>

definition handle_media :: "unicode \<Rightarrow> path \<Rightarrow> path \<Rightarrow> world \<Rightarrow> world" where
  "handle_media u file_name target_folder w =
     (case mkdir_parents (files w) target_folder of
        (t, Some e) \<Rightarrow> w\<lparr>files := t\<rparr>
      | (t, None) \<Rightarrow>
          (let new_file_path = join target_folder (normalize u (path_name file_name))
           in case move t file_name new_file_path of
                (t', Some e) \<Rightarrow> w\<lparr>files := t'\<rparr>
              | (t', None) \<Rightarrow> w\<lparr>files := t'\<rparr>))"

text \<open>The directory that \<open>handle_archive\<close> unpacks into.\<close>

definition folder_for_file :: "unicode \<Rightarrow> path \<Rightarrow> path \<Rightarrow> path" where
  "folder_for_file u file_name target_folder =
     join target_folder (normalize u (replace (path_name file_name) (suffix (path_name file_name)) []))"

text \<open>
  \<open>MediaHandler.handle_archive\<close>.  Only \<open>shutil.ReadError\<close> is caught; any other
  exception, of the two \<open>mkdir\<close> calls, of unpacking, of \<open>rmdir\<close> or of \<open>unlink\<close>, leaves
  the method.
\<close>

definition handle_archive ::
    "unicode \<Rightarrow> unpacker \<Rightarrow> path \<Rightarrow> path \<Rightarrow> world \<Rightarrow> world \<times> error option" where
  "handle_archive u unpack file_name target_folder w =
     (case mkdir_parents (files w) target_folder of
        (t1, Some e) \<Rightarrow> (w\<lparr>files := t1\<rparr>, Some e)
      | (t1, None) \<Rightarrow>
          (let dir = folder_for_file u file_name target_folder
           in case mkdir_parents t1 dir of
                (t2, Some e) \<Rightarrow> (w\<lparr>files := t2\<rparr>, Some e)
              | (t2, None) \<Rightarrow>
                  (case unpack t2 file_name dir of
                     Raised e members \<Rightarrow>
                       (if e = ReadError
                        then (case rmdir (extract_members t2 dir members) dir of
                                (t3, r) \<Rightarrow> (w\<lparr>files := t3\<rparr>, r))
                        else (w\<lparr>files := extract_members t2 dir members\<rparr>, Some e))
                   | Unpacked members \<Rightarrow>
                       (case unlink (extract_members t2 dir members) file_name of
                          (t3, r) \<Rightarrow> (w\<lparr>files := t3\<rparr>, r)))))"

text \<open>\<open>MediaHandler.process_files\<close> and \<open>MediaHandler.process_archives\<close>.\<close>

definition process_files :: "unicode \<Rightarrow> path list \<Rightarrow> path \<Rightarrow> world \<Rightarrow> world" where
  "process_files u file_list target_folder w =
     fold (\<lambda>file w. handle_media u file target_folder w) file_list w"

fun process_archives ::
    "unicode \<Rightarrow> unpacker \<Rightarrow> path list \<Rightarrow> path \<Rightarrow> world \<Rightarrow> world \<times> error option" where
  "process_archives u unpack [] target_folder w = (w, None)"
| "process_archives u unpack (archive # archives) target_folder w =
     (case handle_archive u unpack archive target_folder w of
        (w', Some e) \<Rightarrow> (w', Some e)
      | (w', None) \<Rightarrow> process_archives u unpack archives target_folder w')"


text \<open>
  \<open>executor.submit(task)\<close>: an exception that leaves a task is kept in its future, which
  nobody reads.  The tasks of a pool are modelled as running one after the other, each
  to its end, in the order in which they are submitted.
\<close>

definition submit :: "(world \<Rightarrow> world \<times> error option) \<Rightarrow> world \<Rightarrow> world" where
  "submit task w = fst (task w)"

definition result_folder :: path where
  "result_folder = [str ''result'']"

text \<open>The six tasks that every call of \<open>process_folder\<close> submits after those of its subfolders.\<close>

definition dispatch :: "unicode \<Rightarrow> unpacker \<Rightarrow> scan_state \<Rightarrow> world \<Rightarrow> world" where
  "dispatch u unpack st w =
     (let w1 = process_files u (images_batch st) (result_folder @ [str ''images'']) w;
          w2 = process_files u (audio_batch st) (result_folder @ [str ''audio'']) w1;
          w3 = process_files u (video_batch st) (result_folder @ [str ''video'']) w2;
          w4 = process_files u (documents_batch st) (result_folder @ [str ''documents'']) w3;
          w5 = submit (process_archives u unpack (buckets st ARCHIVES)
                         (result_folder @ [str ''archives''])) w4
      in process_files u (buckets st MY_OTHER) (result_folder @ [str ''MY_OTHER'']) w5)"

text \<open>
  \<open>MediaHandler.process_folder\<close> on a directory with the given entries.  The entries are
  those of the tree that \<open>scan\<close> has read: the model is of a run whose \<open>result\<close>
  directory lies outside the folder, so that no directory below the folder is made or
  removed while the run lasts.  On a path that is no directory \<open>iterdir\<close> raises.
\<close>

fun process_folder ::
    "unicode \<Rightarrow> unpacker \<Rightarrow> scan_state \<Rightarrow> node \<Rightarrow> world \<Rightarrow> world \<times> error option" where
  "process_folder u unpack st (Dir items) w =
     (case mkdir (files w) result_folder of
        (t, Some e) \<Rightarrow> (w\<lparr>files := t\<rparr>, Some e)
      | (t, None) \<Rightarrow>
          (dispatch u unpack st
             (fold (\<lambda>(name, item) w.
                      case item of
                        Dir _ \<Rightarrow> submit (process_folder u unpack st item) w
                      | File _ \<Rightarrow> w)
                   items (w\<lparr>files := t\<rparr>)),
           None))"
| "process_folder u unpack st (File c) w =
     (case mkdir (files w) result_folder of
        (t, Some e) \<Rightarrow> (w\<lparr>files := t\<rparr>, Some e)
      | (t, None) \<Rightarrow> (w\<lparr>files := t\<rparr>, Some NotADirectoryError))"

text \<open>
  \<open>MediaHandler.run\<close> on a folder with the given entries.  The accumulators are the
  module's, so a run starts from the state that the runs before it have left.
\<close>

definition run ::
    "unicode \<Rightarrow> unpacker \<Rightarrow> path \<Rightarrow> (pystr \<times> node) list \<Rightarrow> scan_state \<times> world
       \<Rightarrow> (scan_state \<times> world) \<times> error option" where
  "run u unpack folder items sw =
     (let st = scan u folder items (fst sw)
      in case process_folder u unpack st (Dir items) (snd sw) of
           (w, r) \<Rightarrow> ((st, w), r))"

section \<open>Factorisation\<close>

text \<open>
  \<open>int(number ** 0.5)\<close>.  The power is taken in double precision: a negative base gives
  a complex number, which \<open>int\<close> refuses, and an integer that rounds to \<open>2 ^ 1024\<close> or
  more cannot be converted.  What the floating-point power and the truncation give
  for the other integers is the parameter \<open>fsqrt\<close>.
\<close>

definition int_sqrt_float :: "(int \<Rightarrow> int) \<Rightarrow> int \<Rightarrow> error + int" where
  "int_sqrt_float fsqrt number =
     (if 2 ^ 1024 - 2 ^ 970 \<le> \<bar>number\<bar> then Inl OverflowError
      else if number < 0 then Inl TypeError
      else Inr (fsqrt number))"

text \<open>The loop of \<open>factorize\<close> over \<open>range(1, r + 1)\<close>.\<close>

definition factor_step :: "int \<Rightarrow> int \<Rightarrow> int list \<Rightarrow> int list" where
  "factor_step number num factors =
     (if number mod num = 0
      then (if num \<noteq> number div num then factors @ [num, number div num] else factors @ [num])
      else factors)"

definition factor_loop :: "int \<Rightarrow> int \<Rightarrow> int list" where
  "factor_loop number r = fold (factor_step number) [1..r] []"

text \<open>
  \<open>Factorize.factorize\<close>: an exception is logged and the factors found so far are
  returned, sorted.  Only the bound of the range can raise, before the first factor.
\<close>

definition factorize :: "(int \<Rightarrow> int) \<Rightarrow> int \<Rightarrow> logger \<Rightarrow> int list \<times> logger" where
  "factorize fsqrt number lg =
     (case int_sqrt_float fsqrt number of
        Inl e \<Rightarrow> (sort [], lg @ [(ERROR, str ''Error in factorize: '', Some e)])
      | Inr r \<Rightarrow> (sort (factor_loop number r), lg))"

section \<open>Notions used to state the properties\<close>

text \<open>
  Two strings that differ at most in the case of ASCII letters.
\<close>

definition ascii_letter :: "nat \<Rightarrow> bool" where
  "ascii_letter c = ((65 \<le> c \<and> c \<le> 90) \<or> (97 \<le> c \<and> c \<le> 122))"

definition same_but_case :: "pystr \<Rightarrow> pystr \<Rightarrow> bool" where
  "same_but_case a b =
     list_all2 (\<lambda>x y. x = y \<or> (ascii_letter x \<and> ascii_letter y \<and> (x = y + 32 \<or> y = x + 32))) a b"

text \<open>The reserved names as the specification lists them.\<close>

definition spec_reserved_names :: "pystr list" where
  "spec_reserved_names =
     map str [''archives'', ''video'', ''audio'', ''documents'', ''images'', ''other'']"

text \<open>A name with exactly its trailing extension, the suffix, taken off.\<close>

definition strip_suffix :: "pystr \<Rightarrow> pystr" where
  "strip_suffix s = take (length s - length (suffix s)) s"

text \<open>The exact integer square root: the \<open>r\<close> with \<open>r\<^sup>2 \<le> n < (r + 1)\<^sup>2\<close>.\<close>

definition is_floor_sqrt :: "int \<Rightarrow> int \<Rightarrow> bool" where
  "is_floor_sqrt n r = (0 \<le> r \<and> r * r \<le> n \<and> n < (r + 1) * (r + 1))"

text \<open>What \<open>normalize\<close> does to the part of a name before its extension.\<close>

definition clean :: "unicode \<Rightarrow> pystr \<Rightarrow> pystr" where
  "clean u s = re_sub_W u (translate TRANS s)"

definition TRANS_ok :: "nat \<Rightarrow> pystr \<Rightarrow> bool" where
  "TRANS_ok c l = (128 \<le> c \<and> l \<noteq> [] \<and> list_all (\<lambda>x. x < 128) l)"

text \<open>The code points of the keys of \<open>REGISTER_EXTENSION\<close>: capitals and digits.\<close>

definition upper_or_digit :: "nat \<Rightarrow> bool" where
  "upper_or_digit c = ((48 \<le> c \<and> c \<le> 57) \<or> (65 \<le> c \<and> c \<le> 90))"

text \<open>
  A name without an extension, and a name whose extension is no key of the table.
\<close>

definition no_extension :: "unicode \<Rightarrow> pystr \<Rightarrow> bool" where
  "no_extension u nm = (get_extension u nm = [])"

definition unknown_extension :: "unicode \<Rightarrow> pystr \<Rightarrow> bool" where
  "unknown_extension u nm =
     (get_extension u nm \<noteq> [] \<and> REGISTER_EXTENSION (get_extension u nm) = None)"

text \<open>
  The list that a file name is filed in, and the files that a scan reaches, in the order
  in which it reaches them: those with no directory of a skipped name on the way.
\<close>

definition bucket_of :: "unicode \<Rightarrow> pystr \<Rightarrow> bucket" where
  "bucket_of u nm =
     (if get_extension u nm = [] then MY_OTHER
      else (case REGISTER_EXTENSION (get_extension u nm) of Some b \<Rightarrow> b | None \<Rightarrow> MY_OTHER))"

fun reachable_item :: "path \<Rightarrow> pystr \<times> node \<Rightarrow> path list" where
  "reachable_item folder (nm, Dir items) =
     (if nm \<in> set skipped_names then []
      else concat (map (reachable_item (folder @ [nm])) items))"
| "reachable_item folder (nm, File c) = [folder @ [nm]]"

definition reachable_files :: "path \<Rightarrow> (pystr \<times> node) list \<Rightarrow> path list" where
  "reachable_files folder items = concat (map (reachable_item folder) items)"

section \<open>Sample inputs\<close>


definition damaged_zip :: content where
  "damaged_zip =
     [0, 0, 0, 0, 80, 75, 5, 6, 0, 0, 0, 0, 1, 0, 1, 0, 4, 0, 0, 0, 0, 0, 0, 0, 0, 0]"

definition small_zip :: content where
  "small_zip =
     [80, 75, 3, 4, 20, 0, 0, 0, 0, 0, 0, 0, 33, 0, 183, 239, 220, 131, 1, 0, 0, 0, 1, 0,
      0, 0, 5, 0, 0, 0, 109, 46, 116, 120, 116, 49, 80, 75, 1, 2, 20, 3, 20, 0, 0, 0, 0,
      0, 0, 0, 33, 0, 183, 239, 220, 131, 1, 0, 0, 0, 1, 0, 0, 0, 5, 0, 0, 0, 0, 0, 0, 0,
      0, 0, 0, 0, 128, 1, 0, 0, 0, 0, 109, 46, 116, 120, 116, 80, 75, 5, 6, 0, 0, 0, 0,
      1, 0, 1, 0, 51, 0, 0, 0, 36, 0, 0, 0, 0, 0]"

definition sample_unpack :: unpacker where
  "sample_unpack t a d =
     (case lookup t a of
        Some (F c) \<Rightarrow>
          if c = small_zip then Unpacked [([str ''m.txt''], F [49])]
          else if c = damaged_zip then Raised BadZipFile []
          else Raised ReadError []
      | _ \<Rightarrow> Raised ReadError [])"



text \<open>
  A folder \<open>d\<close> holding two text files whose names differ in one character, a space in
  one and an underscore in the other, with different contents; the entries in the two
  orders in which \<open>iterdir\<close> may give them.
\<close>

definition twin_world :: world where
  "twin_world =
     \<lparr>files = [([str ''d''], D),
               ([str ''d'', str ''a b.txt''], F [65]),
               ([str ''d'', str ''a_b.txt''], F [66])],
      log = []\<rparr>"

definition twin_items :: "(pystr \<times> node) list" where
  "twin_items = [(str ''a b.txt'', File [65]), (str ''a_b.txt'', File [66])]"

section \<open>Strings and normalisation\<close>


lemma rfind_ge: "- 1 \<le> rfind s c"
  by (induction s) (auto simp: Let_def)

lemma rfind_none: "rfind s c = - 1 \<longleftrightarrow> c \<notin> set s"
proof (induction s)
  case Nil
  then show ?case by simp
next
  case (Cons x xs)
  with rfind_ge [of xs c] show ?case by (auto simp: Let_def)
qed

lemma rfind_less: "rfind s c < int (length s)"
  by (induction s) (auto simp: Let_def)

lemma rfind_append: "c \<notin> set ys \<Longrightarrow> rfind (xs @ c # ys) c = int (length xs)"
  by (induction xs) (auto simp: Let_def rfind_none)

lemma rfind_drop:
  "0 \<le> rfind s c \<Longrightarrow> \<exists>rest. drop (nat (rfind s c)) s = c # rest \<and> c \<notin> set rest"
proof (induction s)
  case Nil
  then show ?case by simp
next
  case (Cons x xs)
  show ?case
  proof (cases "rfind xs c = - 1")
    case True
    with Cons.prems have "x = c" by (auto simp: Let_def split: if_splits)
    with True show ?thesis by (simp add: Let_def rfind_none)
  next
    case False
    with rfind_ge [of xs c] have ge: "0 \<le> rfind xs c" by linarith
    from False have "rfind (x # xs) c = rfind xs c + 1" by (simp add: Let_def)
    moreover from ge have "nat (rfind xs c + 1) = Suc (nat (rfind xs c))" by simp
    ultimately show ?thesis using Cons.IH [OF ge] by simp
  qed
qed


lemma fold_TRANS_step_ok:
  "list_all (\<lambda>cl. TRANS_ok (fst cl) (snd cl) \<and>
       TRANS_ok (hd (upper no_unicode [fst cl])) (upper no_unicode (snd cl))) ps \<Longrightarrow>
   (\<And>c l. m c = Some l \<Longrightarrow> TRANS_ok c l) \<Longrightarrow>
   fold TRANS_step ps m c = Some l \<Longrightarrow> TRANS_ok c l"
proof (induction ps arbitrary: m)
  case Nil
  then show ?case by simp
next
  case (Cons p ps)
  have "\<And>c l. TRANS_step p m c = Some l \<Longrightarrow> TRANS_ok c l"
    using Cons.prems(1,2) by (auto simp: TRANS_step_def Let_def split: if_splits)
  with Cons.IH [of "TRANS_step p m"] Cons.prems(1,3) show ?case by simp
qed

lemma TRANS_facts: "TRANS c = Some l \<Longrightarrow> TRANS_ok c l"
proof (rule fold_TRANS_step_ok [where m = Map.empty and ps = "zip CYRILLIC_SYMBOLS TRANSLATION"])
  show "list_all (\<lambda>cl. TRANS_ok (fst cl) (snd cl) \<and>
       TRANS_ok (hd (upper no_unicode [fst cl])) (upper no_unicode (snd cl)))
       (zip CYRILLIC_SYMBOLS TRANSLATION)"
    by (simp add: CYRILLIC_SYMBOLS_def TRANSLATION_def TRANS_ok_def upper_def char_upper_def
        no_unicode_def str_def)
qed (simp_all add: TRANS_def)



lemma translate_id: "(\<forall>c \<in> set s. TRANS c = None) \<Longrightarrow> translate TRANS s = s"
  by (induction s) (auto simp: translate_def)

lemma translate_range: "x \<in> set (translate TRANS s) \<Longrightarrow> TRANS x = None"
proof -
  assume "x \<in> set (translate TRANS s)"
  then obtain c where c: "c \<in> set s" "x \<in> set (case TRANS c of Some l \<Rightarrow> l | None \<Rightarrow> [c])"
    by (auto simp: translate_def)
  show ?thesis
  proof (cases "TRANS c")
    case None
    with c show ?thesis by simp
  next
    case (Some l)
    with c have "x \<in> set l" by simp
    with TRANS_facts [OF Some] have "x < 128" by (simp add: TRANS_ok_def list_all_iff)
    then show ?thesis using TRANS_facts [of x] by (cases "TRANS x") (auto simp: TRANS_ok_def)
  qed
qed

lemma translate_nonempty: "s \<noteq> [] \<Longrightarrow> translate TRANS s \<noteq> []"
proof (cases s)
  case Nil
  assume "s \<noteq> []" with Nil show ?thesis by simp
next
  case (Cons c cs)
  then show ?thesis using TRANS_facts [of c]
    by (cases "TRANS c") (auto simp: translate_def TRANS_ok_def)
qed

lemma re_sub_W_word: "x \<in> set (re_sub_W u s) \<Longrightarrow> is_word u x"
  by (auto simp: re_sub_W_def is_word_def underscore_def)

lemma re_sub_W_id: "(\<forall>c \<in> set s. is_word u c) \<Longrightarrow> re_sub_W u s = s"
  by (induction s) (auto simp: re_sub_W_def)

lemma re_sub_W_from: "x \<in> set (re_sub_W u s) \<Longrightarrow> x = underscore \<or> x \<in> set s"
  by (auto simp: re_sub_W_def)

lemma TRANS_ascii: "c < 128 \<Longrightarrow> TRANS c = None"
  using TRANS_facts [of c] by (cases "TRANS c") (auto simp: TRANS_ok_def)


lemma clean_word: "x \<in> set (clean u s) \<Longrightarrow> is_word u x"
  unfolding clean_def by (rule re_sub_W_word)

lemma clean_untranslated: "x \<in> set (clean u s) \<Longrightarrow> TRANS x = None"
  unfolding clean_def
  using re_sub_W_from [of x u "translate TRANS s"] translate_range [of x s] TRANS_ascii [of underscore]
  by (auto simp: underscore_def)

lemma clean_clean: "clean u (clean u s) = clean u s"
proof -
  have "translate TRANS (clean u s) = clean u s"
    by (rule translate_id) (simp add: clean_untranslated)
  moreover have "re_sub_W u (clean u s) = clean u s"
    by (rule re_sub_W_id) (simp add: clean_word)
  ultimately show ?thesis by (simp add: clean_def)
qed

lemma clean_nonempty: "s \<noteq> [] \<Longrightarrow> clean u s \<noteq> []"
  using translate_nonempty [of s] by (simp add: clean_def re_sub_W_def)

lemma clean_no_dot: "dot \<notin> set (clean u s)"
  using clean_word [of dot u s] by (auto simp: is_word_def dot_def)

lemma clean_no_slash: "slash \<notin> set (clean u s)"
  using clean_word [of slash u s] by (auto simp: is_word_def slash_def)

lemma splitext_loop_cases:
  "splitext_loop p i d = (p, []) \<or> (i < d \<and> splitext_loop p i d = (take d p, drop d p))"
proof (induction p i d rule: splitext_loop.induct)
  case (1 p i d)
  show ?case
  proof (cases "i < d \<and> take 1 (drop i p) = [dot]")
    case True
    with "1.IH" have "splitext_loop p (i + 1) d = (p, []) \<or>
        (i + 1 < d \<and> splitext_loop p (i + 1) d = (take d p, drop d p))" by simp
    moreover from True have "splitext_loop p i d = splitext_loop p (i + 1) d"
      by (subst splitext_loop.simps) simp
    ultimately show ?thesis using True by auto
  next
    case False
    then show ?thesis by (subst (1 2) splitext_loop.simps) auto
  qed
qed

lemma splitext_cases:
  "splitext p = (p, []) \<or>
   (\<exists>d rest. 0 < d \<and> d < length p \<and> splitext p = (take d p, dot # rest) \<and>
       drop d p = dot # rest \<and> dot \<notin> set rest \<and> slash \<notin> set rest)"
proof (cases "rfind p dot > rfind p slash")
  case False
  then show ?thesis by (simp add: splitext_def Let_def)
next
  case True
  define d where "d = nat (rfind p dot)"
  from True rfind_ge [of p slash] have ge: "0 \<le> rfind p dot" by linarith
  from rfind_drop [OF ge] obtain rest where rest: "drop d p = dot # rest" "dot \<notin> set rest"
    by (auto simp: d_def)
  from rfind_less [of p dot] ge have dlt: "d < length p" by (simp add: d_def)
  have p: "p = take d p @ dot # rest" using rest(1) by (metis append_take_drop_id)
  have noslash: "slash \<notin> set rest"
  proof
    assume "slash \<in> set rest"
    then obtain a b where ab: "rest = a @ slash # b" "slash \<notin> set b"
      by (meson split_list_last)
    have "p = (take d p @ dot # a) @ slash # b" using p ab by simp
    then have "rfind p slash = int (length (take d p @ dot # a))"
      using rfind_append [OF ab(2), of "take d p @ dot # a"] by simp
    with dlt have "rfind p slash > int d" by simp
    with True ge show False unfolding d_def by linarith
  qed
  from splitext_loop_cases [of p "nat (rfind p slash + 1)" d]
  show ?thesis
  proof
    assume "splitext_loop p (nat (rfind p slash + 1)) d = (p, [])"
    with True show ?thesis by (simp add: splitext_def Let_def d_def)
  next
    assume a: "nat (rfind p slash + 1) < d \<and>
       splitext_loop p (nat (rfind p slash + 1)) d = (take d p, drop d p)"
    then have "0 < d" by linarith
    moreover from a True have "splitext p = (take d p, dot # rest)"
      by (simp add: splitext_def Let_def d_def [symmetric] rest)
    ultimately show ?thesis using dlt rest noslash by blast
  qed
qed

lemma splitext_clean_ext:
  assumes "s \<noteq> []" "dot \<notin> set rest" "slash \<notin> set rest"
  shows "splitext (clean u s @ dot # rest) = (clean u s, dot # rest)"
proof -
  let ?f = "clean u s"
  let ?p = "?f @ dot # rest"
  have ne: "?f \<noteq> []" using assms(1) by (rule clean_nonempty)
  have rd: "rfind ?p dot = int (length ?f)" using assms(2) by (rule rfind_append)
  have "slash \<notin> set ?p" using assms(3) clean_no_slash [of u s] by (simp add: slash_def dot_def)
  then have rs: "rfind ?p slash = - 1" by (simp add: rfind_none)
  from ne obtain x xs where xs: "?f = x # xs" by (cases ?f) auto
  with clean_no_dot [of u s] have "x \<noteq> dot" by auto
  with xs have "splitext_loop ?p 0 (length ?f) = (take (length ?f) ?p, drop (length ?f) ?p)"
    by (subst splitext_loop.simps) simp
  with rd rs show ?thesis by (simp add: splitext_def Let_def)
qed

lemma splitext_clean_plain: "splitext (clean u s) = (clean u s, [])"
proof -
  have "rfind (clean u s) dot = - 1" using clean_no_dot by (simp add: rfind_none)
  moreover have "- 1 \<le> rfind (clean u s) slash" by (rule rfind_ge)
  ultimately show ?thesis by (simp add: splitext_def Let_def)
qed

lemma normalize_clean: "normalize u name = clean u (fst (splitext name)) @ snd (splitext name)"
  by (simp add: normalize_def clean_def split: prod.split)

text \<open>
  C5.  \<open>normalize\<close> is idempotent: normalising a normalised name gives the same name.
  This holds for every string, whatever the Unicode tables of the runtime are.
\<close>

theorem normalize_idempotent: "normalize u (normalize u x) = normalize u x"
proof -
  from splitext_cases [of x] show ?thesis
  proof
    assume a: "splitext x = (x, [])"
    then have "normalize u x = clean u x" by (simp add: normalize_clean)
    then show ?thesis by (simp add: normalize_clean splitext_clean_plain clean_clean)
  next
    assume "\<exists>d rest. 0 < d \<and> d < length x \<and> splitext x = (take d x, dot # rest) \<and>
       drop d x = dot # rest \<and> dot \<notin> set rest \<and> slash \<notin> set rest"
    then obtain d rest where d: "0 < d" "d < length x" "splitext x = (take d x, dot # rest)"
      "dot \<notin> set rest" "slash \<notin> set rest" by blast
    from d(1,2) have ne: "take d x \<noteq> []" by auto
    have n: "normalize u x = clean u (take d x) @ dot # rest" using d(3) by (simp add: normalize_clean)
    show ?thesis
      unfolding n
      by (simp add: normalize_clean splitext_clean_ext [OF ne d(4,5)] clean_clean)
  qed
qed

section \<open>Classification of extensions\<close>

lemma keys_upper:
  assumes "REGISTER_EXTENSION k = Some b"
  shows "k \<noteq> [] \<and> list_all upper_or_digit k"
proof -
  let ?P = "\<lambda>kb. fst kb \<noteq> [] \<and> list_all upper_or_digit (fst kb)"
  from assms obtain l where l: "(k, b) \<in> set l" "list_all ?P l"
    unfolding REGISTER_EXTENSION_def
    by (rule_tac that [OF map_of_SomeD]) (assumption, simp add: str_def upper_or_digit_def)
  then show ?thesis by (auto simp: list_all_iff)
qed

lemma char_upper_casing:
  assumes "x = y \<or> (ascii_letter x \<and> ascii_letter y \<and> (x = y + 32 \<or> y = x + 32))"
    and "upper_or_digit y"
  shows "char_upper u x = [y] \<and> x \<noteq> dot"
proof -
  from assms(2) have y: "(48 \<le> y \<and> y \<le> 57) \<or> (65 \<le> y \<and> y \<le> 90)"
    by (simp add: upper_or_digit_def)
  from assms(1) y consider (same) "x = y" | (lower) "x = y + 32" "65 \<le> y" "y \<le> 90"
    unfolding ascii_letter_def by arith
  then show ?thesis
  proof cases
    case same
    from y have "\<not> (97 \<le> y \<and> y \<le> 122)" "y < 128" "y \<noteq> 46" by arith+
    with same show ?thesis by (auto simp: char_upper_def dot_def)
  next
    case lower
    then have "97 \<le> x \<and> x \<le> 122" "x - 32 = y" "x \<noteq> 46" by arith+
    then show ?thesis by (auto simp: char_upper_def dot_def)
  qed
qed

lemma upper_same_but_case:
  "same_but_case e k \<Longrightarrow> list_all upper_or_digit k \<Longrightarrow> upper u e = k \<and> dot \<notin> set e"
  unfolding same_but_case_def
proof (induction rule: list_all2_induct)
  case Nil
  then show ?case by (simp add: upper_def)
next
  case (Cons x xs y ys)
  from Cons.prems have y: "upper_or_digit y" and ys: "list_all upper_or_digit ys" by simp_all
  from char_upper_casing [OF Cons.hyps(1) y] have "char_upper u x = [y] \<and> x \<noteq> dot" .
  with Cons.IH [OF ys] show ?case by (simp add: upper_def)
qed

lemma suffix_append_ext:
  "stem \<noteq> [] \<Longrightarrow> e \<noteq> [] \<Longrightarrow> dot \<notin> set e \<Longrightarrow> suffix (stem @ dot # e) = dot # e"
  by (simp add: suffix_def rfind_append Let_def)

text \<open>
  C8.  A file name whose extension is any casing of a key of the table is looked up
  as the key is: the extension is upper-cased before the lookup, so every casing of
  a tabled extension goes to the list, and so to the category, of the key.
\<close>

theorem classify_case_insensitive:
  assumes "REGISTER_EXTENSION k = Some b" and "same_but_case e k" and "stem \<noteq> []"
  shows "REGISTER_EXTENSION (get_extension u (stem @ dot # e)) = Some b"
proof -
  from keys_upper [OF assms(1)] have k: "k \<noteq> []" "list_all upper_or_digit k" by simp_all
  from upper_same_but_case [OF assms(2) k(2)] have up: "upper u e = k" "dot \<notin> set e" by simp_all
  from assms(2) k(1) have "e \<noteq> []" by (auto simp: same_but_case_def)
  with assms(3) up(2) have "suffix (stem @ dot # e) = dot # e" by (simp add: suffix_append_ext)
  with up(1) assms(1) show ?thesis by (simp add: get_extension_def)
qed

theorem classify_case_insensitive_witness:
  "REGISTER_EXTENSION (str ''MP3'') = Some MP3_AUDIO \<and> same_but_case (str ''mp3'') (str ''MP3'')
   \<and> str ''song'' \<noteq> []
   \<and> REGISTER_EXTENSION (get_extension no_unicode (str ''song'' @ dot # str ''mp3'')) = Some MP3_AUDIO
   \<and> REGISTER_EXTENSION (get_extension no_unicode (str ''song'' @ dot # str ''MP3'')) = Some MP3_AUDIO
   \<and> category_of MP3_AUDIO = Audio"
proof -
  have a: "REGISTER_EXTENSION (str ''MP3'') = Some MP3_AUDIO"
    by (simp add: REGISTER_EXTENSION_def str_def)
  have b: "same_but_case (str ''mp3'') (str ''MP3'')"
    by (simp add: same_but_case_def str_def ascii_letter_def)
  have b': "same_but_case (str ''MP3'') (str ''MP3'')"
    by (simp add: same_but_case_def str_def ascii_letter_def)
  have c: "str ''song'' \<noteq> []" by (simp add: str_def)
  from classify_case_insensitive [OF a b c, of no_unicode]
    classify_case_insensitive [OF a b' c, of no_unicode] a b c show ?thesis by simp
qed

section \<open>Scanning\<close>

lemma scan_item_Dir:
  "scan_item u folder (nm, Dir items) st =
     (if nm \<notin> set skipped_names
      then scan u (folder @ [nm]) items (st\<lparr>FOLDERS := FOLDERS st @ [folder @ [nm]]\<rparr>)
      else st)"
  by (simp add: scan_def)

lemma scan_Nil: "scan u folder [] st = st"
  by (simp add: scan_def)

lemma scan_Cons: "scan u folder (item # items) st = scan u folder items (scan_item u folder item st)"
  by (simp add: scan_def)

lemma scan_append: "scan u folder (xs @ ys) st = scan u folder ys (scan u folder xs st)"
  by (simp add: scan_def)

subsection \<open>What a scan adds to the lists\<close>

lemma buckets_scan_file:
  "buckets (scan_file u folder nm st) b =
     buckets st b @ (if bucket_of u nm = b then [folder @ [nm]] else [])"
  by (simp add: scan_file_def bucket_of_def append_to_def Let_def split: option.split)

lemma fold_buckets:
  assumes "\<And>x st. x \<in> set xs \<Longrightarrow> buckets (f x st) b = buckets st b @ g x"
  shows "buckets (fold f xs st) b = buckets st b @ concat (map g xs)"
  using assms by (induction xs arbitrary: st) simp_all

lemma buckets_scan_item:
  "buckets (scan_item u folder item st) b =
     buckets st b @ filter (\<lambda>p. bucket_of u (last p) = b) (reachable_item folder item)"
proof (induction u folder item st rule: scan_item.induct)
  case (1 u folder nm items st)
  show ?case
  proof (cases "nm \<in> set skipped_names")
    case True
    then show ?thesis by simp
  next
    case False
    have "buckets (fold (scan_item u (folder @ [nm])) items
             (st\<lparr>FOLDERS := FOLDERS st @ [folder @ [nm]]\<rparr>)) b =
          buckets (st\<lparr>FOLDERS := FOLDERS st @ [folder @ [nm]]\<rparr>) b @
          concat (map (\<lambda>x. filter (\<lambda>p. bucket_of u (last p) = b)
                              (reachable_item (folder @ [nm]) x)) items)"
      by (rule fold_buckets) (rule "1.IH" [OF False])
    with False show ?thesis by (simp add: filter_concat comp_def)
  qed
next
  case (2 u folder nm c st)
  show ?case by (simp add: buckets_scan_file)
qed

lemma buckets_scan:
  "buckets (scan u folder items st) b =
     buckets st b @ filter (\<lambda>p. bucket_of u (last p) = b) (reachable_files folder items)"
proof -
  have "buckets (fold (scan_item u folder) items st) b =
        buckets st b @ concat (map (\<lambda>x. filter (\<lambda>p. bucket_of u (last p) = b)
                                          (reachable_item folder x)) items)"
    by (rule fold_buckets) (rule buckets_scan_item)
  then show ?thesis by (simp add: scan_def reachable_files_def filter_concat comp_def)
qed

subsection \<open>Files without a known extension\<close>

lemma MY_OTHER_is_no_value: "REGISTER_EXTENSION k = Some b \<Longrightarrow> b \<noteq> MY_OTHER"
proof -
  assume "REGISTER_EXTENSION k = Some b"
  then obtain l where l: "(k, b) \<in> set l" "list_all (\<lambda>kb. snd kb \<noteq> MY_OTHER) l"
    unfolding REGISTER_EXTENSION_def
    by (rule_tac that [OF map_of_SomeD]) (assumption, simp)
  then show ?thesis by (auto simp: list_all_iff)
qed

lemma bucket_of_MY_OTHER:
  "bucket_of u nm = MY_OTHER \<longleftrightarrow> no_extension u nm \<or> unknown_extension u nm"
  using MY_OTHER_is_no_value [of "get_extension u nm"]
  by (auto simp: bucket_of_def no_extension_def unknown_extension_def split: option.splits)

lemma bucket_of_other:
  "b \<noteq> MY_OTHER \<Longrightarrow>
     bucket_of u nm = b \<longleftrightarrow>
       get_extension u nm \<noteq> [] \<and> REGISTER_EXTENSION (get_extension u nm) = Some b"
  by (auto simp: bucket_of_def split: option.splits)

lemma UNKNOWN_scan_file:
  "UNKNOWN (scan_file u folder nm st) =
     UNKNOWN st \<union> (if unknown_extension u nm then {get_extension u nm} else {})"
  by (simp add: scan_file_def unknown_extension_def append_to_def Let_def split: option.split)

lemma fold_UNKNOWN:
  assumes "\<And>x st. x \<in> set xs \<Longrightarrow> UNKNOWN (f x st) = UNKNOWN st \<union> g x"
  shows "UNKNOWN (fold f xs st) = UNKNOWN st \<union> \<Union> (g ` set xs)"
  using assms by (induction xs arbitrary: st) auto

lemma UNKNOWN_scan_item:
  "UNKNOWN (scan_item u folder item st) =
     UNKNOWN st \<union> (\<lambda>p. get_extension u (last p)) `
       {p \<in> set (reachable_item folder item). unknown_extension u (last p)}"
proof (induction u folder item st rule: scan_item.induct)
  case (1 u folder nm items st)
  show ?case
  proof (cases "nm \<in> set skipped_names")
    case True
    then show ?thesis by simp
  next
    case False
    have "UNKNOWN (fold (scan_item u (folder @ [nm])) items
             (st\<lparr>FOLDERS := FOLDERS st @ [folder @ [nm]]\<rparr>)) =
          UNKNOWN (st\<lparr>FOLDERS := FOLDERS st @ [folder @ [nm]]\<rparr>) \<union>
          \<Union> ((\<lambda>x. (\<lambda>p. get_extension u (last p)) `
                 {p \<in> set (reachable_item (folder @ [nm]) x). unknown_extension u (last p)})
              ` set items)"
      by (rule fold_UNKNOWN) (rule "1.IH" [OF False])
    with False show ?thesis by auto
  qed
next
  case (2 u folder nm c st)
  show ?case by (auto simp: UNKNOWN_scan_file)
qed

lemma UNKNOWN_scan:
  "UNKNOWN (scan u folder items st) =
     UNKNOWN st \<union> (\<lambda>p. get_extension u (last p)) `
       {p \<in> set (reachable_files folder items). unknown_extension u (last p)}"
proof -
  have "UNKNOWN (fold (scan_item u folder) items st) =
        UNKNOWN st \<union>
          \<Union> ((\<lambda>x. (\<lambda>p. get_extension u (last p)) `
                 {p \<in> set (reachable_item folder x). unknown_extension u (last p)})
              ` set items)"
    by (rule fold_UNKNOWN) (rule UNKNOWN_scan_item)
  then show ?thesis by (auto simp: scan_def reachable_files_def)
qed

text \<open>
  C9.  In the loop of \<open>scan\<close>, a file with an empty extension is appended to \<open>MY_OTHER\<close>
  and nothing else changes; a file with an extension that is no key of the table is
  appended to \<open>MY_OTHER\<close> and its extension is added to \<open>UNKNOWN\<close>, and nothing else
  changes.  So a whole scan appends to \<open>MY_OTHER\<close> exactly the files it reaches that
  have no extension or an unknown one, in the order in which it reaches them, and to
  no other list any of them; it adds to \<open>UNKNOWN\<close> exactly the unknown extensions of
  the files it reaches, and never the empty extension.
\<close>

theorem scan_routes_other:
  "(no_extension u nm \<longrightarrow>
      scan_item u folder (nm, File c) st = append_to MY_OTHER (folder @ [nm]) st) \<and>
   (unknown_extension u nm \<longrightarrow>
      scan_item u folder (nm, File c) st =
        append_to MY_OTHER (folder @ [nm])
          (st\<lparr>UNKNOWN := insert (get_extension u nm) (UNKNOWN st)\<rparr>)) \<and>
   buckets (scan u folder items st) MY_OTHER =
     buckets st MY_OTHER @
       filter (\<lambda>p. no_extension u (last p) \<or> unknown_extension u (last p))
         (reachable_files folder items) \<and>
   (b \<noteq> MY_OTHER \<longrightarrow>
      buckets (scan u folder items st) b =
        buckets st b @
          filter (\<lambda>p. \<not> no_extension u (last p) \<and>
                      REGISTER_EXTENSION (get_extension u (last p)) = Some b)
            (reachable_files folder items)) \<and>
   UNKNOWN (scan u folder items st) =
     UNKNOWN st \<union> (\<lambda>p. get_extension u (last p)) `
       {p \<in> set (reachable_files folder items). unknown_extension u (last p)} \<and>
   ([] \<in> UNKNOWN (scan u folder items st) \<longleftrightarrow> [] \<in> UNKNOWN st)"
proof (intro conjI impI)
  assume "no_extension u nm"
  then show "scan_item u folder (nm, File c) st = append_to MY_OTHER (folder @ [nm]) st"
    by (simp add: scan_file_def no_extension_def)
next
  assume "unknown_extension u nm"
  then show "scan_item u folder (nm, File c) st =
        append_to MY_OTHER (folder @ [nm])
          (st\<lparr>UNKNOWN := insert (get_extension u nm) (UNKNOWN st)\<rparr>)"
    by (simp add: scan_file_def unknown_extension_def)
next
  show "buckets (scan u folder items st) MY_OTHER =
     buckets st MY_OTHER @
       filter (\<lambda>p. no_extension u (last p) \<or> unknown_extension u (last p))
         (reachable_files folder items)"
    by (simp add: buckets_scan bucket_of_MY_OTHER)
next
  assume "b \<noteq> MY_OTHER"
  then show "buckets (scan u folder items st) b =
        buckets st b @
          filter (\<lambda>p. \<not> no_extension u (last p) \<and>
                      REGISTER_EXTENSION (get_extension u (last p)) = Some b)
            (reachable_files folder items)"
    by (simp add: buckets_scan bucket_of_other no_extension_def)
next
  show u: "UNKNOWN (scan u folder items st) =
     UNKNOWN st \<union> (\<lambda>p. get_extension u (last p)) `
       {p \<in> set (reachable_files folder items). unknown_extension u (last p)}"
    by (rule UNKNOWN_scan)
  show "[] \<in> UNKNOWN (scan u folder items st) \<longleftrightarrow> [] \<in> UNKNOWN st"
    unfolding u by (auto simp: unknown_extension_def)
qed

theorem scan_routes_other_witness:
  "no_extension no_unicode (str ''Makefile'') \<and>
   scan_item no_unicode [str ''d''] (str ''Makefile'', File []) initial_state
     = append_to MY_OTHER [str ''d'', str ''Makefile''] initial_state \<and>
   unknown_extension no_unicode (str ''a.xyz'') \<and>
   scan_item no_unicode [str ''d''] (str ''a.xyz'', File []) initial_state
     = append_to MY_OTHER [str ''d'', str ''a.xyz'']
         (initial_state\<lparr>UNKNOWN := insert (get_extension no_unicode (str ''a.xyz''))
            (UNKNOWN initial_state)\<rparr>) \<and>
   get_extension no_unicode (str ''a.xyz'') = str ''XYZ'' \<and>
   buckets (scan no_unicode [str ''d'']
       [(str ''sub'', Dir [(str ''Makefile'', File []), (str ''a.xyz'', File []),
          (str ''b.txt'', File [])])] initial_state) MY_OTHER
     = [[str ''d'', str ''sub'', str ''Makefile''], [str ''d'', str ''sub'', str ''a.xyz'']] \<and>
   TXT_DOCS \<noteq> MY_OTHER \<and>
   buckets (scan no_unicode [str ''d'']
       [(str ''sub'', Dir [(str ''Makefile'', File []), (str ''a.xyz'', File []),
          (str ''b.txt'', File [])])] initial_state) TXT_DOCS
     = [[str ''d'', str ''sub'', str ''b.txt'']] \<and>
   UNKNOWN (scan no_unicode [str ''d'']
       [(str ''sub'', Dir [(str ''Makefile'', File []), (str ''a.xyz'', File []),
          (str ''b.txt'', File [])])] initial_state) = {str ''XYZ''} \<and>
   [] \<notin> UNKNOWN (scan no_unicode [str ''d'']
       [(str ''sub'', Dir [(str ''Makefile'', File []), (str ''a.xyz'', File []),
          (str ''b.txt'', File [])])] initial_state)"
proof -
  let ?items = "[(str ''sub'', Dir [(str ''Makefile'', File []), (str ''a.xyz'', File []),
          (str ''b.txt'', File [])])]"
  have e1: "get_extension no_unicode (str ''Makefile'') = []"
    by (simp add: get_extension_def suffix_def str_def dot_def upper_def Let_def)
  have e2: "get_extension no_unicode (str ''a.xyz'') = str ''XYZ''"
    by (simp add: get_extension_def suffix_def str_def dot_def upper_def char_upper_def Let_def)
  have e3: "get_extension no_unicode (str ''b.txt'') = str ''TXT''"
    by (simp add: get_extension_def suffix_def str_def dot_def upper_def char_upper_def Let_def)
  have r2: "REGISTER_EXTENSION (str ''XYZ'') = None"
    by (simp add: REGISTER_EXTENSION_def str_def)
  have r3: "REGISTER_EXTENSION (str ''TXT'') = Some TXT_DOCS"
    by (simp add: REGISTER_EXTENSION_def str_def)
  have n: "str ''XYZ'' \<noteq> []" "str ''TXT'' \<noteq> []" by (simp_all add: str_def)
  have a: "no_extension no_unicode (str ''Makefile'')" by (simp add: no_extension_def e1)
  have b: "unknown_extension no_unicode (str ''a.xyz'')"
    by (simp add: unknown_extension_def e2 r2 n)
  have s: "str ''sub'' \<notin> set skipped_names" by (simp add: skipped_names_def str_def)
  have rf: "reachable_files [str ''d''] ?items =
      [[str ''d'', str ''sub'', str ''Makefile''], [str ''d'', str ''sub'', str ''a.xyz''],
       [str ''d'', str ''sub'', str ''b.txt'']]"
    using s by (simp add: reachable_files_def)
  note t1 = scan_routes_other [of no_unicode "str ''Makefile''" "[str ''d'']" "[]" initial_state
      ?items TXT_DOCS]
  note t2 = scan_routes_other [of no_unicode "str ''a.xyz''" "[str ''d'']" "[]" initial_state
      ?items TXT_DOCS]
  from t1 [THEN conjunct1] a
  have c1: "scan_item no_unicode [str ''d''] (str ''Makefile'', File []) initial_state
     = append_to MY_OTHER [str ''d'', str ''Makefile''] initial_state" by simp
  from t2 [THEN conjunct2, THEN conjunct1] b
  have c2: "scan_item no_unicode [str ''d''] (str ''a.xyz'', File []) initial_state
     = append_to MY_OTHER [str ''d'', str ''a.xyz'']
         (initial_state\<lparr>UNKNOWN := insert (get_extension no_unicode (str ''a.xyz''))
            (UNKNOWN initial_state)\<rparr>)" by simp
  from t1 [THEN conjunct2, THEN conjunct2, THEN conjunct1]
  have c3: "buckets (scan no_unicode [str ''d''] ?items initial_state) MY_OTHER
     = [[str ''d'', str ''sub'', str ''Makefile''], [str ''d'', str ''sub'', str ''a.xyz'']]"
    by (simp add: rf initial_state_def no_extension_def unknown_extension_def e1 e2 e3 r2 r3 n)
  have ne: "TXT_DOCS \<noteq> MY_OTHER" by simp
  from t1 [THEN conjunct2, THEN conjunct2, THEN conjunct2, THEN conjunct1] ne
  have c4: "buckets (scan no_unicode [str ''d''] ?items initial_state) TXT_DOCS
     = [[str ''d'', str ''sub'', str ''b.txt'']]"
    by (simp add: rf initial_state_def no_extension_def unknown_extension_def e1 e2 e3 r2 r3 n)
  have u1: "\<not> unknown_extension no_unicode (str ''Makefile'')"
    by (simp add: unknown_extension_def e1)
  have u3: "\<not> unknown_extension no_unicode (str ''b.txt'')"
    by (simp add: unknown_extension_def e3 r3)
  have sel: "{p \<in> set (reachable_files [str ''d''] ?items). unknown_extension no_unicode (last p)}
      = {[str ''d'', str ''sub'', str ''a.xyz'']}"
    unfolding rf using u1 b u3 by auto
  have "UNKNOWN (scan no_unicode [str ''d''] ?items initial_state) =
      UNKNOWN initial_state \<union>
        (\<lambda>p. get_extension no_unicode (last p)) ` {[str ''d'', str ''sub'', str ''a.xyz'']}"
    using t1 [THEN conjunct2, THEN conjunct2, THEN conjunct2, THEN conjunct2, THEN conjunct1]
    by (simp only: sel)
  then have c5: "UNKNOWN (scan no_unicode [str ''d''] ?items initial_state) = {str ''XYZ''}"
    by (simp add: initial_state_def e2)
  from t1 [THEN conjunct2, THEN conjunct2, THEN conjunct2, THEN conjunct2, THEN conjunct2]
  have c6: "[] \<notin> UNKNOWN (scan no_unicode [str ''d''] ?items initial_state)"
    by (simp add: initial_state_def)
  from a b e2 c1 c2 c3 ne c4 c5 c6 show ?thesis by (intro conjI)
qed

lemma reachable_item_clear:
  "p \<in> set (reachable_item folder item) \<Longrightarrow>
     \<exists>r. p = folder @ r \<and> r \<noteq> [] \<and> set (butlast r) \<inter> set skipped_names = {}"
proof (induction folder item arbitrary: p rule: reachable_item.induct)
  case (1 folder nm items)
  then obtain x where x: "x \<in> set items" "p \<in> set (reachable_item (folder @ [nm]) x)"
    and nm: "nm \<notin> set skipped_names"
    by (auto split: if_splits)
  from "1.IH" [OF nm x] obtain r where r: "p = (folder @ [nm]) @ r" "r \<noteq> []"
    "set (butlast r) \<inter> set skipped_names = {}" by blast
  with nm have "p = folder @ (nm # r) \<and> nm # r \<noteq> [] \<and>
      set (butlast (nm # r)) \<inter> set skipped_names = {}" by simp
  then show ?case by blast
next
  case (2 folder nm c)
  then show ?case by simp
qed

lemma reachable_files_clear:
  assumes "p \<in> set (reachable_files folder items)"
  shows "prefix folder p \<and> set (butlast (drop (length folder) p)) \<inter> set skipped_names = {}"
proof -
  from assms obtain x where "p \<in> set (reachable_item folder x)"
    by (auto simp: reachable_files_def)
  from reachable_item_clear [OF this] obtain r where "p = folder @ r"
    "set (butlast r) \<inter> set skipped_names = {}" by blast
  then show ?thesis by simp
qed

text \<open>
  C3, as the code has it.  The names that \<open>scan\<close> does not enter are
  \<open>archives\<close>, \<open>video\<close>, \<open>audio\<close>, \<open>documents\<close>, \<open>images\<close> and \<open>MY_OTHER\<close>:
  a subdirectory with one of these names leaves the state as it is, and every other
  subdirectory is appended to \<open>FOLDERS\<close> and scanned.  So no path that a scan
  files has a directory of one of these names between the scanned folder and the file.
\<close>

theorem scan_skips_exactly_skipped_names:
  "(nm \<in> set skipped_names \<longrightarrow> scan_item u folder (nm, Dir items) st = st) \<and>
   (nm \<notin> set skipped_names \<longrightarrow>
      scan_item u folder (nm, Dir items) st =
        scan u (folder @ [nm]) items (st\<lparr>FOLDERS := FOLDERS st @ [folder @ [nm]]\<rparr>)) \<and>
   (p \<in> set (buckets (scan u folder entries initial_state) b) \<longrightarrow>
      prefix folder p \<and> set (butlast (drop (length folder) p)) \<inter> set skipped_names = {})"
proof -
  have "p \<in> set (buckets (scan u folder entries initial_state) b) \<Longrightarrow>
      prefix folder p \<and> set (butlast (drop (length folder) p)) \<inter> set skipped_names = {}"
    using reachable_files_clear [of p folder entries]
    by (auto simp: buckets_scan initial_state_def)
  then show ?thesis by (auto simp: scan_def)
qed

theorem scan_skips_exactly_skipped_names_witness:
  "str ''MY_OTHER'' \<in> set skipped_names \<and>
   scan_item no_unicode [str ''d''] (str ''MY_OTHER'', Dir [(str ''y.txt'', File [])]) initial_state
     = initial_state \<and>
   str ''other'' \<notin> set skipped_names \<and>
   scan_item no_unicode [str ''d''] (str ''other'', Dir [(str ''x.txt'', File [])]) initial_state
     = scan no_unicode [str ''d'', str ''other''] [(str ''x.txt'', File [])]
         (initial_state\<lparr>FOLDERS := FOLDERS initial_state @ [[str ''d'', str ''other'']]\<rparr>) \<and>
   [str ''d'', str ''other'', str ''x.txt'']
     \<in> set (buckets (scan no_unicode [str ''d''] [(str ''other'', Dir [(str ''x.txt'', File [])])]
          initial_state) TXT_DOCS) \<and>
   prefix [str ''d''] [str ''d'', str ''other'', str ''x.txt''] \<and>
   set (butlast (drop (length [str ''d'']) [str ''d'', str ''other'', str ''x.txt'']))
     \<inter> set skipped_names = {}"
proof -
  have t: "bucket_of no_unicode (str ''x.txt'') = TXT_DOCS"
    by (simp add: bucket_of_def get_extension_def suffix_def str_def dot_def upper_def
        char_upper_def REGISTER_EXTENSION_def Let_def)
  have m: "[str ''d'', str ''other'', str ''x.txt'']
     \<in> set (buckets (scan no_unicode [str ''d''] [(str ''other'', Dir [(str ''x.txt'', File [])])]
          initial_state) TXT_DOCS)"
    using t by (simp add: buckets_scan reachable_files_def initial_state_def skipped_names_def str_def)
  have a: "str ''MY_OTHER'' \<in> set skipped_names" by (simp add: skipped_names_def)
  have b: "str ''other'' \<notin> set skipped_names" by (simp add: skipped_names_def str_def)
  from scan_skips_exactly_skipped_names
         [of "str ''MY_OTHER''" no_unicode "[str ''d'']" "[(str ''y.txt'', File [])]" initial_state
             "[str ''d'', str ''other'', str ''x.txt'']" "[(str ''other'', Dir [(str ''x.txt'', File [])])]"
             TXT_DOCS]
       scan_skips_exactly_skipped_names
         [of "str ''other''" no_unicode "[str ''d'']" "[(str ''x.txt'', File [])]" initial_state]
       a b m
  show ?thesis by simp
qed

text \<open>
  The claim as the specification words it fails on a directory named \<open>other\<close>, which
  is in the specification's list: \<open>scan\<close> records it and files the text file inside.
\<close>

theorem scan_enters_other:
  "str ''other'' \<in> set spec_reserved_names \<and>
   FOLDERS (scan no_unicode [str ''d''] [(str ''other'', Dir [(str ''x.txt'', File [])])] initial_state)
     = [[str ''d'', str ''other'']] \<and>
   buckets (scan no_unicode [str ''d''] [(str ''other'', Dir [(str ''x.txt'', File [])])] initial_state)
     TXT_DOCS = [[str ''d'', str ''other'', str ''x.txt'']]"
proof -
  have e: "get_extension no_unicode (str ''x.txt'') = str ''TXT''"
    by (simp add: get_extension_def suffix_def str_def dot_def upper_def char_upper_def Let_def)
  have r: "REGISTER_EXTENSION (str ''TXT'') = Some TXT_DOCS"
    by (simp add: REGISTER_EXTENSION_def str_def)
  have n: "str ''TXT'' \<noteq> []" by (simp add: str_def)
  have s: "str ''other'' \<notin> set skipped_names" by (simp add: skipped_names_def str_def)
  have "str ''other'' \<in> set spec_reserved_names" by (simp add: spec_reserved_names_def)
  then show ?thesis
    using e r n s by (simp add: scan_def scan_file_def append_to_def initial_state_def Let_def)
qed


lemma scan_of_run: "fst (fst (run u unpack folder items sw)) = scan u folder items (fst sw)"
  by (simp add: run_def Let_def split: prod.split)

text \<open>
  C4, as the code has it.  The lists belong to the module and are never emptied: what
  the dispatch of a second run reads from a list is what the first run left there,
  followed by the records of the second run's own scan.
\<close>

theorem second_run_buckets_accumulate:
  "buckets (fst (fst (run u unpack folder2 items2 (run1_state, w)))) b =
     buckets run1_state b @ buckets (scan u folder2 items2 initial_state) b"
  by (simp add: scan_of_run buckets_scan initial_state_def)

text \<open>
  The claim as stated fails: after a run on a folder \<open>A\<close> holding \<open>a.txt\<close>, a run on a
  folder \<open>B\<close> holding \<open>b.txt\<close> dispatches both paths as documents, where a scan of \<open>B\<close>
  alone gives one.
\<close>

theorem second_run_sees_first_run:
  "documents_batch (fst (fst (run no_unicode (\<lambda>t a d. Raised ReadError []) [str ''B'']
       [(str ''b.txt'', File [])]
       (fst (run no_unicode (\<lambda>t a d. Raised ReadError []) [str ''A'']
          [(str ''a.txt'', File [])] (initial_state, \<lparr>files = [], log = []\<rparr>))))))
     = [[str ''A'', str ''a.txt''], [str ''B'', str ''b.txt'']] \<and>
   documents_batch (scan no_unicode [str ''B''] [(str ''b.txt'', File [])] initial_state)
     = [[str ''B'', str ''b.txt'']]"
proof -
  have a: "bucket_of no_unicode (str ''a.txt'') = TXT_DOCS"
    by (simp add: bucket_of_def get_extension_def suffix_def str_def dot_def upper_def
        char_upper_def REGISTER_EXTENSION_def Let_def)
  have b: "bucket_of no_unicode (str ''b.txt'') = TXT_DOCS"
    by (simp add: bucket_of_def get_extension_def suffix_def str_def dot_def upper_def
        char_upper_def REGISTER_EXTENSION_def Let_def)
  show ?thesis
    by (simp add: documents_batch_def scan_of_run buckets_scan reachable_files_def
        initial_state_def a b)
qed

section \<open>File-system operations\<close>

lemma lookup_remove: "lookup (remove t p) q = (if q = p then None else lookup t q)"
  unfolding lookup_def remove_def
  by (induction t) auto

lemma lookup_store: "lookup (store t p e) q = (if q = p then Some e else lookup t q)"
  using lookup_remove [of t p q] by (simp add: store_def lookup_def)

lemma mkdir_cases:
  "mkdir t p = (t, None) \<and> is_dir t p \<or>
   mkdir t p = (store t p D, None) \<and> lookup t p = None \<and> p \<noteq> [] \<and> is_dir t (butlast p) \<or>
   (\<exists>e. mkdir t p = (t, Some e))"
  by (auto simp: mkdir_def is_dir_def exists_def)

text \<open>
  Making a directory with its parents changes nothing but absent paths on the way to it,
  which become directories; when it returns, the directory is there.
\<close>

lemma mkdir_parents_effect:
  "mkdir_parents t p = (t', r) \<Longrightarrow>
     (\<forall>q. lookup t' q = lookup t q \<or> (lookup t q = None \<and> lookup t' q = Some D \<and> prefix q p \<and> q \<noteq> []))
     \<and> (r = None \<longrightarrow> is_dir t' p)"
proof (induction t p arbitrary: t' r rule: mkdir_parents.induct)
  case (1 t p)
  let ?goal = "(\<forall>q. lookup t' q = lookup t q \<or>
        (lookup t q = None \<and> lookup t' q = Some D \<and> prefix q p \<and> q \<noteq> []))
     \<and> (r = None \<longrightarrow> is_dir t' p)"
  show ?case
  proof (cases "is_dir t p")
    case True
    with "1.prems" show ?thesis by (auto simp: mkdir_parents.simps [of t p])
  next
    case nd: False
    show ?thesis
    proof (cases "exists t p")
      case True
      with nd "1.prems" show ?thesis by (auto simp: mkdir_parents.simps [of t p])
    next
      case ne: False
      then have absent: "lookup t p = None" "p \<noteq> []" by (auto simp: exists_def)
      show ?thesis
      proof (cases "is_dir t (butlast p)")
        case True
        with nd ne "1.prems" have "t' = store t p D" "r = None"
          by (simp_all add: mkdir_parents.simps [of t p])
        with absent show ?thesis by (auto simp: lookup_store is_dir_def)
      next
        case npd: False
        show ?thesis
        proof (cases "exists t (butlast p)")
          case True
          with nd ne npd "1.prems" show ?thesis by (auto simp: mkdir_parents.simps [of t p])
        next
          case npe: False
          obtain t1 r1 where rec: "mkdir_parents t (butlast p) = (t1, r1)" by (cases "mkdir_parents t (butlast p)")
          from "1.IH" [OF nd ne npd npe rec]
          have ih: "\<forall>q. lookup t1 q = lookup t q \<or>
              (lookup t q = None \<and> lookup t1 q = Some D \<and> prefix q (butlast p) \<and> q \<noteq> [])"
            and ihd: "r1 = None \<longrightarrow> is_dir t1 (butlast p)" by simp_all
          have pre: "\<And>q. prefix q (butlast p) \<Longrightarrow> prefix q p"
            by (metis prefix_order.order_trans prefixeq_butlast)
          show ?thesis
          proof (cases r1)
            case (Some e)
            with nd ne npd npe rec "1.prems" have "t' = t1" "r = Some e"
              by (simp_all add: mkdir_parents.simps [of t p])
            with ih pre show ?thesis by auto
          next
            case None
            with nd ne npd npe rec "1.prems" have m: "mkdir t1 p = (t', r)"
              by (simp add: mkdir_parents.simps [of t p])
            from ih absent have p1: "lookup t1 p = None"
              by (metis not_Cons_self2 option.distinct(1) prefix_order.eq_iff
                  prefixeq_butlast same_prefix_nil snoc_eq_iff_butlast)
            from None ihd have d1: "is_dir t1 (butlast p)" by simp
            from m p1 d1 absent have "t' = store t1 p D" "r = None"
              by (simp_all add: mkdir_def is_dir_def exists_def)
            with ih pre absent show ?thesis
              by (auto simp: lookup_store is_dir_def)
          qed
        qed
      qed
    qed
  qed
qed

lemma mkdir_parents_lookup:
  assumes "mkdir_parents t p = (t', r)"
  shows "lookup t' q = lookup t q \<or>
     (lookup t q = None \<and> lookup t' q = Some D \<and> prefix q p \<and> q \<noteq> [])"
proof -
  from mkdir_parents_effect [OF assms]
  have "\<forall>q. lookup t' q = lookup t q \<or>
     (lookup t q = None \<and> lookup t' q = Some D \<and> prefix q p \<and> q \<noteq> [])"
    by (rule conjunct1)
  then show ?thesis by (rule spec)
qed



lemma mkdir_parents_files:
  "lookup (fst (mkdir_parents t p)) q = Some (F c) \<longleftrightarrow> lookup t q = Some (F c)"
proof -
  obtain t' r where m: "mkdir_parents t p = (t', r)" by (cases "mkdir_parents t p")
  from mkdir_parents_lookup [OF m, of q]
  have "lookup t' q = Some (F c) \<longleftrightarrow> lookup t q = Some (F c)" by auto
  with m show ?thesis by simp
qed

lemma move_missing:
  "lookup t src = None \<Longrightarrow> fst (move t src dst) = t \<and> snd (move t src dst) \<noteq> None"
  by (simp add: move_def Let_def)

lemma prefix_join: "prefix p q \<Longrightarrow> prefix p (join q s)"
  by (auto simp: join_def prefix_def)

lemma move_dir_into_itself:
  assumes "lookup t src = Some D" "prefix src dst"
  shows "fst (move t src dst) = t"
proof -
  have "prefix src (join dst (path_name src))" using assms(2) by (rule prefix_join)
  with assms show ?thesis by (simp add: move_def Let_def)
qed

lemma move_file:
  assumes "lookup t src = Some (F c)" "\<not> is_dir t dst" "is_dir t (butlast dst)" "src \<noteq> dst"
  shows "move t src dst = (store (remove t src) dst (F c), None)"
  using assms by (simp add: move_def Let_def)


section \<open>Relocation of media files\<close>

lemma log_handle_media: "log (handle_media u file_name target_folder w) = log w"
  by (simp add: handle_media_def Let_def split: prod.split option.split)

lemma log_process_files: "log (process_files u file_list target_folder w) = log w"
  unfolding process_files_def
  by (induction file_list arbitrary: w) (simp_all add: log_handle_media)

lemma handle_media_missing:
  assumes "lookup (files w) file_name = None"
  shows "files (handle_media u file_name target_folder w) = fst (mkdir_parents (files w) target_folder)"
proof -
  obtain t r where m: "mkdir_parents (files w) target_folder = (t, r)"
    by (cases "mkdir_parents (files w) target_folder")
  let ?dst = "join target_folder (normalize u (path_name file_name))"
  obtain t' r' where mv: "move t file_name ?dst = (t', r')" by (cases "move t file_name ?dst")
  show ?thesis
  proof (cases r)
    case (Some e)
    with m show ?thesis by (simp add: handle_media_def)
  next
    case None
    from mkdir_parents_lookup [OF m, of file_name] assms
    have "lookup t file_name = None \<or> (lookup t file_name = Some D \<and> prefix file_name target_folder)"
      by auto
    then have "fst (move t file_name ?dst) = t"
    proof
      assume "lookup t file_name = None"
      from move_missing [OF this] show ?thesis by simp
    next
      assume d: "lookup t file_name = Some D \<and> prefix file_name target_folder"
      then have "prefix file_name ?dst" by (simp add: prefix_join)
      with d show ?thesis by (simp add: move_dir_into_itself)
    qed
    with mv have "t' = t" by simp
    with m None mv show ?thesis
      by (cases r') (simp_all add: handle_media_def Let_def)
  qed
qed

lemma process_files_append:
  "process_files u (xs @ ys) target_folder w =
     process_files u ys target_folder (process_files u xs target_folder w)"
  by (simp add: process_files_def)

lemma process_files_Cons:
  "process_files u (file # rest) target_folder w =
     process_files u rest target_folder (handle_media u file target_folder w)"
  by (simp add: process_files_def)

text \<open>
  C7, as the code has it.  Nothing that \<open>process_files\<close> does reaches the logger; a
  failing move is passed over in silence.  The batch is not cut short: every record is
  handled in turn, after the ones before it, whatever became of them.  A record whose
  source is missing changes no file.
\<close>

theorem process_files_passes_over_failures:
  "log (process_files u file_list target_folder w) = log w \<and>
   process_files u (before @ file # rest) target_folder w =
     process_files u rest target_folder
       (handle_media u file target_folder (process_files u before target_folder w)) \<and>
   (lookup (files w) file = None \<longrightarrow>
      (lookup (files (handle_media u file target_folder w)) q = Some (F c)
         \<longleftrightarrow> lookup (files w) q = Some (F c)))"
proof (intro conjI impI)
  show "log (process_files u file_list target_folder w) = log w" by (rule log_process_files)
  show "process_files u (before @ file # rest) target_folder w =
     process_files u rest target_folder
       (handle_media u file target_folder (process_files u before target_folder w))"
    by (simp only: process_files_append process_files_Cons)
  assume "lookup (files w) file = None"
  then show "lookup (files (handle_media u file target_folder w)) q = Some (F c)
         \<longleftrightarrow> lookup (files w) q = Some (F c)"
    by (simp only: handle_media_missing mkdir_parents_files)
qed

subsection \<open>Evaluation on concrete names and file systems\<close>

lemma translate_ascii: "list_all (\<lambda>c. c < 128) s \<Longrightarrow> translate TRANS s = s"
  by (rule translate_id) (simp add: list_all_iff TRANS_ascii)

lemmas eval_strings =
  str_def dot_def slash_def underscore_def Let_def suffix_def splitext_def splitext_loop.simps
  normalize_def translate_ascii re_sub_W_def is_word_def replace.simps join_def path_name_def
  get_extension_def upper_def char_upper_def strip_suffix_def

lemmas eval_fs =
  lookup_def remove_def store_def is_dir_def exists_def has_children_def mkdir_def
  mkdir_parents.simps unlink_def rmdir_def move_def rename_tree_def extract_members_def
  handle_media_def handle_archive_def process_files_def folder_for_file_def


theorem process_files_passes_over_failures_witness:
  "log (process_files no_unicode [[str ''d'', str ''gone.txt''], [str ''d'', str ''b.txt'']]
          [str ''result'', str ''documents'']
          \<lparr>files = [([str ''d''], D), ([str ''d'', str ''b.txt''], F [2])], log = []\<rparr>) = [] \<and>
   lookup [([str ''d''], D), ([str ''d'', str ''b.txt''], F [2])] [str ''d'', str ''gone.txt''] = None \<and>
   lookup (files (handle_media no_unicode [str ''d'', str ''gone.txt'']
          [str ''result'', str ''documents'']
          \<lparr>files = [([str ''d''], D), ([str ''d'', str ''b.txt''], F [2])], log = []\<rparr>))
        [str ''d'', str ''b.txt''] = Some (F [2])"
proof -
  let ?w = "\<lparr>files = [([str ''d''], D), ([str ''d'', str ''b.txt''], F [2])], log = []\<rparr>"
  have a: "lookup (files ?w) [str ''d'', str ''gone.txt''] = None"
    by (simp add: lookup_def str_def)
  have b: "lookup (files ?w) [str ''d'', str ''b.txt''] = Some (F [2])"
    by (simp add: lookup_def str_def)
  from process_files_passes_over_failures [of no_unicode
      "[[str ''d'', str ''gone.txt''], [str ''d'', str ''b.txt'']]"
      "[str ''result'', str ''documents'']" ?w "[]" "[str ''d'', str ''gone.txt'']"
      "[[str ''d'', str ''b.txt'']]" "[str ''d'', str ''b.txt'']" "[2]"]
  have l: "log (process_files no_unicode [[str ''d'', str ''gone.txt''], [str ''d'', str ''b.txt'']]
          [str ''result'', str ''documents''] ?w) = log ?w"
    and k: "lookup (files ?w) [str ''d'', str ''gone.txt''] = None \<longrightarrow>
      (lookup (files (handle_media no_unicode [str ''d'', str ''gone.txt'']
          [str ''result'', str ''documents''] ?w)) [str ''d'', str ''b.txt''] = Some (F [2])
         \<longleftrightarrow> lookup (files ?w) [str ''d'', str ''b.txt''] = Some (F [2]))"
    by blast+
  from l k a b show ?thesis by simp
qed



text \<open>
  The claim as stated fails where it says that the failure is logged: the first record
  of this batch has no source, its move raises, the second record is moved all the
  same, and the logger has received nothing.
\<close>

theorem failed_move_is_not_logged:
  "snd (move (fst (mkdir_parents [([str ''d''], D), ([str ''d'', str ''b.txt''], F [2])]
                     [str ''result'', str ''documents'']))
             [str ''d'', str ''gone.txt'']
             (join [str ''result'', str ''documents''] (normalize no_unicode (str ''gone.txt''))))
     = Some FileNotFoundError \<and>
   log (process_files no_unicode [[str ''d'', str ''gone.txt''], [str ''d'', str ''b.txt'']]
          [str ''result'', str ''documents'']
          \<lparr>files = [([str ''d''], D), ([str ''d'', str ''b.txt''], F [2])], log = []\<rparr>) = [] \<and>
   lookup (files (process_files no_unicode [[str ''d'', str ''gone.txt''], [str ''d'', str ''b.txt'']]
          [str ''result'', str ''documents'']
          \<lparr>files = [([str ''d''], D), ([str ''d'', str ''b.txt''], F [2])], log = []\<rparr>))
     [str ''result'', str ''documents'', str ''b.txt''] = Some (F [2])"
  by (simp add: eval_fs eval_strings)

section \<open>Archives\<close>

text \<open>
  C6.  The name of the directory that \<open>handle_archive\<close> unpacks into is computed with
  \<open>str.replace\<close>, which takes out every occurrence of the suffix and not only the
  trailing one: for \<open>a.zip.zip\<close> the directory is \<open>a\<close>, where the normalised name
  without its trailing extension is \<open>a.zip\<close>.
\<close>

theorem folder_for_file_drops_every_occurrence:
  "folder_for_file no_unicode [str ''d'', str ''a.zip.zip''] [str ''result'', str ''archives'']
     = [str ''result'', str ''archives'', str ''a''] \<and>
   strip_suffix (str ''a.zip.zip'') = str ''a.zip'' \<and>
   join [str ''result'', str ''archives''] (normalize no_unicode (strip_suffix (str ''a.zip.zip'')))
     = [str ''result'', str ''archives'', str ''a.zip'']"
  by (simp add: folder_for_file_def eval_strings)









section \<open>Factorisation\<close>

lemma factor_loop_0: "factor_loop n 0 = []"
  by (simp add: factor_loop_def)

lemma factor_loop_step:
  "0 \<le> r \<Longrightarrow> factor_loop n (r + 1) = factor_step n (r + 1) (factor_loop n r)"
proof -
  assume "0 \<le> r"
  then have "[1..r + 1] = [1..r] @ [r + 1]" by (simp add: upto_rec2)
  then show ?thesis by (simp add: factor_loop_def)
qed

lemma set_factor_loop:
  "0 \<le> r \<Longrightarrow> set (factor_loop n r) =
     {d. 1 \<le> d \<and> d \<le> r \<and> n mod d = 0} \<union> (\<lambda>d. n div d) ` {d. 1 \<le> d \<and> d \<le> r \<and> n mod d = 0}"
proof (induction r rule: int_ge_induct)
  case base
  then show ?case by (auto simp: factor_loop_0)
next
  case (step r)
  have split: "{d. 1 \<le> d \<and> d \<le> r + 1 \<and> n mod d = 0} =
      {d. 1 \<le> d \<and> d \<le> r \<and> n mod d = 0} \<union> (if n mod (r + 1) = 0 then {r + 1} else {})"
    using step.hyps by (auto simp: le_less) 
  show ?case
    unfolding factor_loop_step [OF step.hyps] split
    using step.IH by (auto simp: factor_step_def)
qed

lemma quotient_large:
  assumes "1 \<le> d" "d < s" "s * s \<le> n" "n mod d = 0"
  shows "s < n div (d::int)"
proof -
  from assms(4) have n: "n = d * (n div d)" by auto
  have "d * s < s * s" using assms(1,2) by (simp add: mult_strict_right_mono)
  with assms(3) n have "d * s < d * (n div d)" by linarith
  with assms(1) show ?thesis by (simp add: mult_less_cancel_left)
qed

lemma factor_loop_members:
  assumes "0 \<le> r" "x \<in> set (factor_loop n r)"
  shows "(1 \<le> x \<and> x \<le> r \<and> n mod x = 0) \<or> (\<exists>e. 1 \<le> e \<and> e \<le> r \<and> n mod e = 0 \<and> x = n div e)"
proof -
  from assms(2) have "x \<in> {d. 1 \<le> d \<and> d \<le> r \<and> n mod d = 0} \<union>
      (\<lambda>d. n div d) ` {d. 1 \<le> d \<and> d \<le> r \<and> n mod d = 0}"
    by (simp only: set_factor_loop [OF assms(1)])
  then show ?thesis
  proof (elim UnE imageE)
    assume "x \<in> {d. 1 \<le> d \<and> d \<le> r \<and> n mod d = 0}"
    then show ?thesis by simp
  next
    fix e assume "x = n div e" "e \<in> {d. 1 \<le> d \<and> d \<le> r \<and> n mod d = 0}"
    then have "1 \<le> e \<and> e \<le> r \<and> n mod e = 0 \<and> x = n div e" by simp
    then show ?thesis by (intro disjI2 exI)
  qed
qed

lemma exact_division: "n mod d = 0 \<Longrightarrow> d * (n div d) = (n::int)"
  using mult_div_mod_eq [of d n] by simp

lemma positive_cofactor:
  assumes "1 \<le> n" "a * b = n" "1 \<le> a"
  shows "1 \<le> (b::int)"
proof (rule ccontr)
  assume "\<not> 1 \<le> b"
  then have "b \<le> 0" by simp
  with assms(3) have "a * b \<le> 0" by (simp add: mult_le_0_iff)
  with assms(1,2) show False by linarith
qed

lemma cofactor_is_quotient:
  assumes "d * x = n" "d \<noteq> 0"
  shows "n div d = (x::int)"
proof -
  from assms(2) have "d * x div d = x" by simp
  with assms(1) show ?thesis by (simp only:)
qed

lemma distinct_factor_loop:
  "0 \<le> r \<Longrightarrow> 1 \<le> n \<Longrightarrow> r * r \<le> n \<Longrightarrow> distinct (factor_loop n r)"
proof (induction r rule: int_ge_induct)
  case base
  then show ?case by (simp add: factor_loop_0)
next
  case (step r)
  define s where "s = r + 1"
  have s: "0 < s" "r < s" using step.hyps by (simp_all add: s_def)
  have ss: "s * s \<le> n" using step.prems(2) by (simp only: s_def)
  have "r * r \<le> s * s" using step.hyps s by (intro mult_mono) linarith+
  with ss have rr: "r * r \<le> n" by linarith
  from step.IH [OF step.prems(1) rr] have d: "distinct (factor_loop n r)" .
  have st: "factor_loop n s = factor_step n s (factor_loop n r)"
    unfolding s_def by (rule factor_loop_step [OF step.hyps])
  have goal: "distinct (factor_loop n s)"
  proof (cases "n mod s = 0")
    case False
    with d show ?thesis by (simp only: st factor_step_def if_False)
  next
    case True
    define q where "q = n div s"
    from exact_division [OF True] have n: "s * q = n" by (simp only: q_def)
    have q: "s \<le> q"
    proof (rule ccontr)
      assume "\<not> s \<le> q"
      then have "q < s" by linarith
      with s(1) have "s * q < s * s" by (intro mult_strict_left_mono)
      with n ss show False by linarith
    qed
    note members = factor_loop_members [OF step.hyps]
    have big: "s < n div e" if e: "1 \<le> e" "e \<le> r" "n mod e = 0" for e
    proof -
      from e(2) s(2) have "e < s" by linarith
      from quotient_large [OF e(1) this ss e(3)] show ?thesis .
    qed
    have s_new: "s \<notin> set (factor_loop n r)"
    proof
      assume "s \<in> set (factor_loop n r)"
      from members [OF this] show False
      proof
        assume "1 \<le> s \<and> s \<le> r \<and> n mod s = 0"
        with s(2) show False by linarith
      next
        assume "\<exists>e. 1 \<le> e \<and> e \<le> r \<and> n mod e = 0 \<and> s = n div e"
        then obtain e where e: "1 \<le> e" "e \<le> r" "n mod e = 0" and se: "s = n div e" by auto
        from big [OF e] se show False by linarith
      qed
    qed
    have q_new: "q \<notin> set (factor_loop n r)"
    proof
      assume "q \<in> set (factor_loop n r)"
      from members [OF this] show False
      proof
        assume "1 \<le> q \<and> q \<le> r \<and> n mod q = 0"
        with q s(2) show False by linarith
      next
        assume "\<exists>e. 1 \<le> e \<and> e \<le> r \<and> n mod e = 0 \<and> q = n div e"
        then obtain e where e: "1 \<le> e" "e \<le> r" "n mod e = 0" and qe: "q = n div e" by auto
        have "e * q = n" unfolding qe by (rule exact_division [OF e(3)])
        with n have "s * q = e * q" by (simp only:)
        moreover from q s(1) have "q \<noteq> 0" by linarith
        ultimately have "s = e" by simp
        with e(2) s(2) show False by linarith
      qed
    qed
    have fs: "factor_step n s (factor_loop n r) =
        (if s \<noteq> q then factor_loop n r @ [s, q] else factor_loop n r @ [s])"
      using True by (simp add: factor_step_def q_def)
    have "distinct (factor_step n s (factor_loop n r))"
      unfolding fs using d s_new q_new by simp
    then show ?thesis by (simp only: st)
  qed
  then show ?case by (simp only: s_def)
qed

lemma divisors_factor_loop:
  assumes "1 \<le> n" "is_floor_sqrt n r"
  shows "set (factor_loop n r) = {d. 0 < d \<and> d dvd n}"
proof -
  from assms(2) have r: "0 \<le> r" "r * r \<le> n" "n < (r + 1) * (r + 1)"
    by (simp_all add: is_floor_sqrt_def)
  have sub: "x \<in> {d. 0 < d \<and> d dvd n}" if "x \<in> set (factor_loop n r)" for x
  proof -
    from factor_loop_members [OF r(1) that] show ?thesis
    proof
      assume "1 \<le> x \<and> x \<le> r \<and> n mod x = 0"
      then have "0 < x" "x dvd n" by (simp_all only: mod_eq_0_iff_dvd) linarith
      then show ?thesis by simp
    next
      assume "\<exists>d. 1 \<le> d \<and> d \<le> r \<and> n mod d = 0 \<and> x = n div d"
      then obtain d where dd: "1 \<le> d" "n mod d = 0" "x = n div d" by auto
      have n: "d * x = n" unfolding dd(3) by (rule exact_division [OF dd(2)])
      from positive_cofactor [OF assms(1) n dd(1)] have "0 < x" by linarith
      moreover from n have "x dvd n" by (metis dvd_triv_right)
      ultimately show ?thesis by simp
    qed
  qed
  have sup: "x \<in> set (factor_loop n r)" if "x \<in> {d. 0 < d \<and> d dvd n}" for x
  proof -
    from that have x: "0 < x" "x dvd n" by simp_all
    then have xm: "n mod x = 0" by (simp only: mod_eq_0_iff_dvd)
    show ?thesis
    proof (cases "x \<le> r")
      case True
      with x(1) xm have "x \<in> {d. 1 \<le> d \<and> d \<le> r \<and> n mod d = 0}" by simp
      then show ?thesis by (simp only: set_factor_loop [OF r(1)] UnI1)
    next
      case False
      define d where "d = n div x"
      from exact_division [OF xm] have n: "x * d = n" by (simp only: d_def)
      from x(1) have x1: "1 \<le> x" by linarith
      from positive_cofactor [OF assms(1) n x1] have dpos: "1 \<le> d" .
      have dle: "d \<le> r"
      proof (rule ccontr)
        assume "\<not> d \<le> r"
        then have "r + 1 \<le> d" by linarith
        moreover from False have "r + 1 \<le> x" by linarith
        ultimately have "(r + 1) * (r + 1) \<le> x * d" using r(1) by (intro mult_mono) linarith+
        with n r(3) show False by linarith
      qed
      from n have nd: "d * x = n" by (simp only: mult.commute)
      from dpos have d0: "d \<noteq> 0" by linarith
      from nd have dm: "n mod d = 0" by (metis mod_mult_self1_is_0)
      from cofactor_is_quotient [OF nd d0] have "x = n div d" by (rule sym)
      moreover from dpos dle dm have "d \<in> {d. 1 \<le> d \<and> d \<le> r \<and> n mod d = 0}" by simp
      ultimately have "x \<in> (\<lambda>d. n div d) ` {d. 1 \<le> d \<and> d \<le> r \<and> n mod d = 0}"
        by (rule image_eqI)
      then show ?thesis by (simp only: set_factor_loop [OF r(1)] UnI2)
    qed
  qed
  show ?thesis
  proof (rule set_eqI)
    fix x show "x \<in> set (factor_loop n r) \<longleftrightarrow> x \<in> {d. 0 < d \<and> d dvd n}"
      using sub [of x] sup [of x] by (rule iffI)
  qed
qed

text \<open>
  Where the floating-point square root is the exact one, \<open>factorize\<close> returns the
  positive divisors, each once, in increasing order, and logs nothing.
\<close>

lemma factorize_exact_root:
  assumes "1 \<le> n" "n < 2 ^ 1024 - 2 ^ 970" "is_floor_sqrt n (fsqrt n)"
  shows "sorted (fst (factorize fsqrt n lg)) \<and> distinct (fst (factorize fsqrt n lg)) \<and>
     set (fst (factorize fsqrt n lg)) = {d. 0 < d \<and> d dvd n} \<and> snd (factorize fsqrt n lg) = lg"
proof -
  from assms(1,2) have "int_sqrt_float fsqrt n = Inr (fsqrt n)"
    by (simp add: int_sqrt_float_def)
  then have f: "factorize fsqrt n lg = (sort (factor_loop n (fsqrt n)), lg)"
    by (simp add: factorize_def)
  from assms(3) have "0 \<le> fsqrt n" "fsqrt n * fsqrt n \<le> n" by (simp_all add: is_floor_sqrt_def)
  with assms(1) have "distinct (factor_loop n (fsqrt n))" by (simp add: distinct_factor_loop)
  with divisors_factor_loop [OF assms(1,3)] f show ?thesis by simp
qed

text \<open>
  C10.  The bound of the loop is computed in floating point, and an integer of
  \<open>2 ^ 1024\<close> or more cannot be converted: the exception is caught and logged, and
  \<open>factorize\<close> returns the empty list, which is not the list of divisors of the number.
\<close>

theorem factorize_overflow:
  "factorize fsqrt (2 ^ 1024) lg = ([], lg @ [(ERROR, str ''Error in factorize: '', Some OverflowError)])
   \<and> 1 \<in> {d. 0 < d \<and> d dvd (2 ^ 1024 :: int)}"
  by (simp add: factorize_def int_sqrt_float_def)

lemma fold_files_only:
  "list_all (\<lambda>x. case snd x of File c \<Rightarrow> True | Dir xs \<Rightarrow> False) items \<Longrightarrow>
     fold (\<lambda>(name, item) w. case item of Dir xs \<Rightarrow> submit (g item) w | File c \<Rightarrow> w) items w = w"
  by (induction items arbitrary: w) (auto split: node.splits)

lemma run_flat:
  assumes "list_all (\<lambda>x. case snd x of File c \<Rightarrow> True | Dir xs \<Rightarrow> False) items"
    and "mkdir (files w) result_folder = (t, None)"
  shows "run u unpack folder items (st, w) =
           ((scan u folder items st,
             dispatch u unpack (scan u folder items st) (w\<lparr>files := t\<rparr>)), None)"
  using assms(2) by (simp add: run_def Let_def fold_files_only [OF assms(1)])

lemma twin_buckets:
  "bucket_of no_unicode (str ''a b.txt'') = TXT_DOCS"
  "bucket_of no_unicode (str ''a_b.txt'') = TXT_DOCS"
  by (simp_all add: bucket_of_def get_extension_def suffix_def str_def dot_def upper_def
      char_upper_def REGISTER_EXTENSION_def Let_def)

lemma twin_batches:
  "images_batch (scan no_unicode [str ''d''] twin_items initial_state) = []"
  "audio_batch (scan no_unicode [str ''d''] twin_items initial_state) = []"
  "video_batch (scan no_unicode [str ''d''] twin_items initial_state) = []"
  "documents_batch (scan no_unicode [str ''d''] twin_items initial_state)
     = [[str ''d'', str ''a b.txt''], [str ''d'', str ''a_b.txt'']]"
  "buckets (scan no_unicode [str ''d''] twin_items initial_state) ARCHIVES = []"
  "buckets (scan no_unicode [str ''d''] twin_items initial_state) MY_OTHER = []"
  "images_batch (scan no_unicode [str ''d''] (rev twin_items) initial_state) = []"
  "audio_batch (scan no_unicode [str ''d''] (rev twin_items) initial_state) = []"
  "video_batch (scan no_unicode [str ''d''] (rev twin_items) initial_state) = []"
  "documents_batch (scan no_unicode [str ''d''] (rev twin_items) initial_state)
     = [[str ''d'', str ''a_b.txt''], [str ''d'', str ''a b.txt'']]"
  "buckets (scan no_unicode [str ''d''] (rev twin_items) initial_state) ARCHIVES = []"
  "buckets (scan no_unicode [str ''d''] (rev twin_items) initial_state) MY_OTHER = []"
  by (simp_all add: images_batch_def audio_batch_def video_batch_def documents_batch_def
      buckets_scan reachable_files_def initial_state_def twin_items_def twin_buckets)

lemma twin_first_moves:
  "handle_media no_unicode [str ''d'', str ''a b.txt''] [str ''result'', str ''documents'']
     \<lparr>files = [([str ''result''], D), ([str ''d''], D),
                ([str ''d'', str ''a b.txt''], F [65]),
                ([str ''d'', str ''a_b.txt''], F [66])], log = []\<rparr>
   = \<lparr>files = [([str ''result'', str ''documents'', str ''a_b.txt''], F [65]),
                ([str ''result'', str ''documents''], D),
                ([str ''result''], D), ([str ''d''], D),
                ([str ''d'', str ''a_b.txt''], F [66])], log = []\<rparr>"
  "handle_media no_unicode [str ''d'', str ''a_b.txt''] [str ''result'', str ''documents'']
     \<lparr>files = [([str ''result''], D), ([str ''d''], D),
                ([str ''d'', str ''a b.txt''], F [65]),
                ([str ''d'', str ''a_b.txt''], F [66])], log = []\<rparr>
   = \<lparr>files = [([str ''result'', str ''documents'', str ''a_b.txt''], F [66]),
                ([str ''result'', str ''documents''], D),
                ([str ''result''], D), ([str ''d''], D),
                ([str ''d'', str ''a b.txt''], F [65])], log = []\<rparr>"
  by (simp_all add: eval_fs eval_strings)

lemma twin_second_moves:
  "handle_media no_unicode [str ''d'', str ''a_b.txt''] [str ''result'', str ''documents'']
     \<lparr>files = [([str ''result'', str ''documents'', str ''a_b.txt''], F [65]),
                ([str ''result'', str ''documents''], D),
                ([str ''result''], D), ([str ''d''], D),
                ([str ''d'', str ''a_b.txt''], F [66])], log = []\<rparr>
   = \<lparr>files = [([str ''result'', str ''documents'', str ''a_b.txt''], F [66]),
                ([str ''result'', str ''documents''], D),
                ([str ''result''], D), ([str ''d''], D)], log = []\<rparr>"
  "handle_media no_unicode [str ''d'', str ''a b.txt''] [str ''result'', str ''documents'']
     \<lparr>files = [([str ''result'', str ''documents'', str ''a_b.txt''], F [66]),
                ([str ''result'', str ''documents''], D),
                ([str ''result''], D), ([str ''d''], D),
                ([str ''d'', str ''a b.txt''], F [65])], log = []\<rparr>
   = \<lparr>files = [([str ''result'', str ''documents'', str ''a_b.txt''], F [65]),
                ([str ''result'', str ''documents''], D),
                ([str ''result''], D), ([str ''d''], D)], log = []\<rparr>"
  by (simp_all add: eval_fs eval_strings)

text \<open>
  C1 fails on the code.  The folder \<open>d\<close> holds \<open>a b.txt\<close> with the byte 65 and \<open>a_b.txt\<close>
  with the byte 66, and nothing else, so that of the six tasks of \<open>process_folder\<close> only
  that of the documents has anything to do.  \<open>normalize\<close> gives both files the name
  \<open>a_b.txt\<close>, and \<open>shutil.move\<close> puts the second over the first: after the run, which
  ends without an exception, the file system holds one file, at
  \<open>result/documents/a_b.txt\<close>, with the content of whichever of the two the scan has met
  last.  The other file, present before the run, is at neither of the places of the
  claim.
\<close>

theorem run_loses_a_colliding_file:
  "lookup (files twin_world) [str ''d'', str ''a b.txt''] = Some (F [65]) \<and>
   lookup (files twin_world) [str ''d'', str ''a_b.txt''] = Some (F [66]) \<and>
   run no_unicode sample_unpack [str ''d''] twin_items (initial_state, twin_world)
     = ((scan no_unicode [str ''d''] twin_items initial_state,
         \<lparr>files = [([str ''result'', str ''documents'', str ''a_b.txt''], F [66]),
                   ([str ''result'', str ''documents''], D),
                   ([str ''result''], D),
                   ([str ''d''], D)],
          log = []\<rparr>), None) \<and>
   run no_unicode sample_unpack [str ''d''] (rev twin_items) (initial_state, twin_world)
     = ((scan no_unicode [str ''d''] (rev twin_items) initial_state,
         \<lparr>files = [([str ''result'', str ''documents'', str ''a_b.txt''], F [65]),
                   ([str ''result'', str ''documents''], D),
                   ([str ''result''], D),
                   ([str ''d''], D)],
          log = []\<rparr>), None)"
proof -
  have m: "mkdir (files twin_world) result_folder
             = ([([str ''result''], D), ([str ''d''], D),
                 ([str ''d'', str ''a b.txt''], F [65]),
                 ([str ''d'', str ''a_b.txt''], F [66])], None)"
    by (simp add: twin_world_def result_folder_def mkdir_def is_dir_def exists_def lookup_def
        store_def remove_def str_def)
  have f1: "list_all (\<lambda>x. case snd x of File c \<Rightarrow> True | Dir xs \<Rightarrow> False) twin_items"
    by (simp add: twin_items_def)
  have f2: "list_all (\<lambda>x. case snd x of File c \<Rightarrow> True | Dir xs \<Rightarrow> False) (rev twin_items)"
    by (simp add: twin_items_def)
  have a: "lookup (files twin_world) [str ''d'', str ''a b.txt''] = Some (F [65])"
    "lookup (files twin_world) [str ''d'', str ''a_b.txt''] = Some (F [66])"
    by (simp_all add: twin_world_def lookup_def str_def)
  have r1: "run no_unicode sample_unpack [str ''d''] twin_items (initial_state, twin_world)
     = ((scan no_unicode [str ''d''] twin_items initial_state,
         \<lparr>files = [([str ''result'', str ''documents'', str ''a_b.txt''], F [66]),
                   ([str ''result'', str ''documents''], D),
                   ([str ''result''], D),
                   ([str ''d''], D)],
          log = []\<rparr>), None)"
    unfolding run_flat [OF f1 m]
    by (simp add: dispatch_def twin_batches submit_def twin_world_def result_folder_def
        process_files_def twin_first_moves twin_second_moves)
  have r2: "run no_unicode sample_unpack [str ''d''] (rev twin_items) (initial_state, twin_world)
     = ((scan no_unicode [str ''d''] (rev twin_items) initial_state,
         \<lparr>files = [([str ''result'', str ''documents'', str ''a_b.txt''], F [65]),
                   ([str ''result'', str ''documents''], D),
                   ([str ''result''], D),
                   ([str ''d''], D)],
          log = []\<rparr>), None)"
    unfolding run_flat [OF f2 m]
    by (simp add: dispatch_def twin_batches submit_def twin_world_def result_folder_def
        process_files_def twin_first_moves twin_second_moves)
  from a r1 r2 show ?thesis by (intro conjI)
qed

end
